theory Spec2Isabelle
  imports Complex_Main "HOL-Library.Word" "HOL-Library.Sublist" "HOL-Library.Multiset"
begin

section \<open>JavaScript strings\<close>

text \<open>
  A JavaScript string is a sequence of UTF-16 code units; \<open>length\<close>, \<open>substring\<close>,
  \<open>split\<close>, \<open>trim\<close> and regular expressions without the \<open>u\<close> flag all work on code
  units. A string is therefore a list of 16-bit words. \<open>js\<close> turns an ASCII literal
  into such a string.
\<close>

type_synonym jschar = "16 word"
type_synonym jsstring = "jschar list"

definition js :: "string \<Rightarrow> jsstring" where
  "js s = map of_char s"

definition newline :: jschar where
  "newline = 0x0A"

definition slash :: jschar where
  "slash = 0x2F"

definition hash :: jschar where
  "hash = 0x23"

definition dquote :: jschar where
  "dquote = 0x22"

definition hyphen :: jschar where
  "hyphen = 0x2D"

definition dot :: jschar where
  "dot = 0x2E"

definition bang :: jschar where
  "bang = 0x21"

definition lbracket :: jschar where
  "lbracket = 0x5B"

definition rbracket :: jschar where
  "rbracket = 0x5D"

definition lparen :: jschar where
  "lparen = 0x28"

definition rparen :: jschar where
  "rparen = 0x29"

definition dollar :: jschar where
  "dollar = 0x24"

definition ampersand :: jschar where
  "ampersand = 0x26"

definition backtick :: jschar where
  "backtick = 0x60"

definition apostrophe :: jschar where
  "apostrophe = 0x27"

definition colon :: jschar where
  "colon = 0x3A"

definition question :: jschar where
  "question = 0x3F"

text \<open>
  ECMAScript \<open>WhiteSpace\<close> and \<open>LineTerminator\<close> code points: the set stripped by
  \<open>String.prototype.trim\<close> and matched by \<open>\s\<close> in a regular expression.
\<close>

definition isWhiteSpace :: "jschar \<Rightarrow> bool" where
  "isWhiteSpace c \<longleftrightarrow>
     c \<in> set [0x09, 0x0A, 0x0B, 0x0C, 0x0D, 0x20, 0xA0, 0x1680, 0x2028, 0x2029,
              0x202F, 0x205F, 0x3000, 0xFEFF]
     \<or> (0x2000 \<le> c \<and> c \<le> 0x200A)"

text \<open>The code units that \<open>.\<close> in a regular expression (no \<open>s\<close> flag) does not match.\<close>

definition isLineTerminator :: "jschar \<Rightarrow> bool" where
  "isLineTerminator c \<longleftrightarrow> c \<in> set [0x0A, 0x0D, 0x2028, 0x2029]"

definition trim :: "jsstring \<Rightarrow> jsstring" where
  "trim s = rev (dropWhile isWhiteSpace (rev (dropWhile isWhiteSpace s)))"

definition startsWith :: "jsstring \<Rightarrow> jsstring \<Rightarrow> bool" where
  "startsWith s p \<longleftrightarrow> take (length p) s = p"

definition endsWith :: "jsstring \<Rightarrow> jsstring \<Rightarrow> bool" where
  "endsWith s p \<longleftrightarrow> length p \<le> length s \<and> drop (length s - length p) s = p"

text \<open>
  \<open>s.split(sep)\<close> for a separator of one code unit: the pieces between the
  separators, in order; the empty string gives one empty piece.
\<close>

fun split_char :: "jschar \<Rightarrow> jsstring \<Rightarrow> jsstring list" where
  "split_char sep [] = [[]]"
| "split_char sep (c # cs) =
     (if c = sep then [] # split_char sep cs
      else (case split_char sep cs of
              [] \<Rightarrow> [[c]]
            | p # ps \<Rightarrow> (c # p) # ps))"

text \<open>\<open>s.includes(sub)\<close>: \<open>sub\<close> occurs in \<open>s\<close> at some position.\<close>

primrec includes_str :: "jsstring \<Rightarrow> jsstring \<Rightarrow> bool" where
  "includes_str [] sub = (sub = [])"
| "includes_str (c # cs) sub = (startsWith (c # cs) sub \<or> includes_str cs sub)"

text \<open>
  \<open>s.lastIndexOf(c)\<close> for a one-unit string \<open>c\<close>: the index of the last occurrence, or
  \<open>-1\<close>. \<open>s.substring(start, end)\<close> clamps both arguments to \<open>0 .. length\<close> and swaps
  them when \<open>start > end\<close>; with one argument the end is the length.
\<close>

primrec last_index_from :: "jschar \<Rightarrow> jsstring \<Rightarrow> int \<Rightarrow> int \<Rightarrow> int" where
  "last_index_from c [] i found = found"
| "last_index_from c (x # xs) i found = last_index_from c xs (i + 1) (if x = c then i else found)"

definition lastIndexOf :: "jsstring \<Rightarrow> jschar \<Rightarrow> int" where
  "lastIndexOf s c = last_index_from c s 0 (- 1)"

definition substring :: "jsstring \<Rightarrow> int \<Rightarrow> int \<Rightarrow> jsstring" where
  "substring s start end =
     (let len = int (length s);
          a = min (max start 0) len;
          b = min (max end 0) len;
          from = min a b;
          to = max a b
      in take (nat (to - from)) (drop (nat from) s))"

definition substring_from :: "jsstring \<Rightarrow> int \<Rightarrow> jsstring" where
  "substring_from s start = substring s start (int (length s))"

text \<open>
  \<open>String(n)\<close> for an integer (below \<open>10^21\<close> in magnitude) is its decimal numeral;
  \<open>s.padStart(n, c)\<close> with a one-unit pad string; \<open>xs.join(sep)\<close> for an array of strings.
\<close>

definition digit :: "nat \<Rightarrow> jschar" where
  "digit d = 0x30 + of_nat d"

fun decimal :: "nat \<Rightarrow> jsstring" where
  "decimal n = (if n < 10 then [digit n] else decimal (n div 10) @ [digit (n mod 10)])"

declare decimal.simps [simp del]

definition number_to_string :: "int \<Rightarrow> jsstring" where
  "number_to_string n = (if n < 0 then js ''-'' @ decimal (nat (- n)) else decimal (nat n))"

definition padStart :: "jsstring \<Rightarrow> nat \<Rightarrow> jschar \<Rightarrow> jsstring" where
  "padStart s targetLength c = replicate (targetLength - length s) c @ s"

fun join :: "jsstring \<Rightarrow> jsstring list \<Rightarrow> jsstring" where
  "join sep [] = []"
| "join sep [x] = x"
| "join sep (x # y # ys) = x @ sep @ join sep (y # ys)"

section \<open>UrlClassifier: \<open>isURL\<close>\<close>

text \<open>
  The test \<open>/^https?:\/\/.+/.test(trimmed)\<close>: the pattern is anchored at the start,
  \<open>s?\<close> tries the \<open>s\<close> first, and \<open>.+\<close> needs one code unit that is not a line
  terminator (what follows it is not constrained, the pattern has no end anchor).
\<close>

definition dot_plus :: "jsstring \<Rightarrow> bool" where
  "dot_plus r = (case r of [] \<Rightarrow> False | c # _ \<Rightarrow> \<not> isLineTerminator c)"

definition test_http_url :: "jsstring \<Rightarrow> bool" where
  "test_http_url s \<longleftrightarrow>
     (startsWith s (js ''https://'') \<and> dot_plus (drop 8 s))
     \<or> (startsWith s (js ''http://'') \<and> dot_plus (drop 7 s))"

definition isURL :: "jsstring \<Rightarrow> bool" where
  "isURL text =
     (let trimmed = trim text in
      if length (split_char newline trimmed) > 1 then False
      else test_http_url trimmed)"

section \<open>AttachmentPathResolver: \<open>getAttachmentFolder\<close>\<close>

text \<open>
  The host setting \<open>attachmentFolderPath\<close> (read with \<open>getConfig\<close>) is the first
  argument: \<open>None\<close> when it is undefined or null. \<open>!attachmentFolderPath\<close> also holds for
  the empty string.
\<close>

definition getAttachmentFolder :: "jsstring option \<Rightarrow> jsstring \<Rightarrow> jsstring" where
  "getAttachmentFolder attachmentFolderPath notePath =
     (case attachmentFolderPath of
        None \<Rightarrow>
          (let noteDir = substring notePath 0 (lastIndexOf notePath slash)
           in if noteDir \<noteq> [] then noteDir else js ''.'')
      | Some afp \<Rightarrow>
          if afp = [] \<or> afp = js ''/'' then
            (let noteDir = substring notePath 0 (lastIndexOf notePath slash)
             in if noteDir \<noteq> [] then noteDir else js ''.'')
          else if startsWith afp (js ''/'') \<or> \<not> includes_str afp (js ''./'') then afp
          else if startsWith afp (js ''./'') then
            (let noteDir = substring notePath 0 (lastIndexOf notePath slash);
                 relPath = substring_from afp 2
             in if noteDir \<noteq> [] then noteDir @ js ''/'' @ relPath else relPath)
          else afp)"

section \<open>NoteAssembler: \<open>generateTitle\<close>\<close>

text \<open>
  \<open>firstLine.replace(/^#+\s*/, '')\<close>: the pattern is anchored, so it only matches a
  string that starts with \<open>#\<close>; it then takes every \<open>#\<close> and every white-space unit
  that follows.
\<close>

definition strip_heading :: "jsstring \<Rightarrow> jsstring" where
  "strip_heading s =
     (case s of
        [] \<Rightarrow> []
      | c # _ \<Rightarrow>
          if c = hash then dropWhile isWhiteSpace (dropWhile (\<lambda>x. x = hash) s)
          else s)"

definition generateTitle :: "jsstring \<Rightarrow> jsstring" where
  "generateTitle text =
     (let firstLine = split_char newline (trim text) ! 0;
          cleaned = trim (strip_heading firstLine)
      in if length cleaned > 50 then trim (substring cleaned 0 50) @ js ''...''
         else if cleaned \<noteq> [] then cleaned else js ''Untitled Note'')"

text \<open>
  The line the title is made from, in the words of the specification: the first line
  of the trimmed text, without its leading \<open>#\<close> markers and the white space around it.
\<close>

definition title_line :: "jsstring \<Rightarrow> jsstring" where
  "title_line text =
     trim (dropWhile isWhiteSpace (dropWhile (\<lambda>c. c = hash)
       (takeWhile (\<lambda>c. c \<noteq> newline) (trim text))))"

definition drop_trailing_space :: "jsstring \<Rightarrow> jsstring" where
  "drop_trailing_space s = rev (dropWhile isWhiteSpace (rev s))"

section \<open>NoteAssembler: \<open>createYamlFrontmatter\<close>\<close>

text \<open>
  \<open>new Date()\<close> is an input: the local-time fields the function reads from it.
  \<open>getMonth\<close> counts from 0. \<open>if (sourceUrl)\<close> holds for a non-empty string.
\<close>

record Date =
  getFullYear :: int
  getMonth :: nat
  getDate :: nat
  getHours :: nat
  getMinutes :: nat

definition createYamlFrontmatter :: "Date \<Rightarrow> jsstring list \<Rightarrow> jsstring option \<Rightarrow> jsstring" where
  "createYamlFrontmatter now tags sourceUrl =
     (let timestamp =
            number_to_string (getFullYear now) @ js ''-''
            @ padStart (number_to_string (int (getMonth now + 1))) 2 (digit 0) @ js ''-''
            @ padStart (number_to_string (int (getDate now))) 2 (digit 0) @ js '' ''
            @ padStart (number_to_string (int (getHours now))) 2 (digit 0) @ js '':''
            @ padStart (number_to_string (int (getMinutes now))) 2 (digit 0);
          tagString = (if length tags > 0 then js ''['' @ join (js '', '') tags @ js '']''
                       else js ''[]'');
          frontmatter = js ''---'' @ [newline] @ js ''modified: '' @ timestamp @ [newline]
                        @ js ''created: '' @ timestamp @ [newline]
                        @ js ''tags: '' @ tagString;
          frontmatter' = (case sourceUrl of
                            None \<Rightarrow> frontmatter
                          | Some u \<Rightarrow>
                              if u \<noteq> [] then
                                frontmatter @ [newline] @ js ''sources: '' @ [dquote]
                                @ js ''[Website]('' @ u @ js '')'' @ [dquote]
                              else frontmatter)
      in frontmatter' @ [newline] @ js ''---'')"

text \<open>
  The format \<open>YYYY-MM-DD HH:MM\<close>: fixed-width decimal fields. A clock reading is valid
  when its fields are in the ranges of a calendar date with a four-digit year.
\<close>

definition two_digits :: "nat \<Rightarrow> jsstring" where
  "two_digits n = [digit (n div 10), digit (n mod 10)]"

definition four_digits :: "nat \<Rightarrow> jsstring" where
  "four_digits n = [digit (n div 1000), digit (n div 100 mod 10), digit (n div 10 mod 10), digit (n mod 10)]"

definition stamp :: "Date \<Rightarrow> jsstring" where
  "stamp d = four_digits (nat (getFullYear d)) @ js ''-'' @ two_digits (getMonth d + 1) @ js ''-''
             @ two_digits (getDate d) @ js '' '' @ two_digits (getHours d) @ js '':''
             @ two_digits (getMinutes d)"

definition valid_clock :: "Date \<Rightarrow> bool" where
  "valid_clock d \<longleftrightarrow> 1000 \<le> getFullYear d \<and> getFullYear d \<le> 9999 \<and> getMonth d \<le> 11
     \<and> 1 \<le> getDate d \<and> getDate d \<le> 31 \<and> getHours d \<le> 23 \<and> getMinutes d \<le> 59"

section \<open>TagSuggester: \<open>suggestTagsKeyword\<close>\<close>

text \<open>
  \<open>lowerFolderName.split(/[\s-_]+/)\<close>: the class holds the white-space units, the
  hyphen and the underscore (without the \<open>u\<close> flag a class escape next to \<open>-\<close> makes the
  hyphen literal). The pieces are the parts between maximal runs of such units; a run
  at the start or at the end leaves an empty piece.
\<close>

definition isWordSeparator :: "jschar \<Rightarrow> bool" where
  "isWordSeparator c \<longleftrightarrow> isWhiteSpace c \<or> c = 0x2D \<or> c = 0x5F"

function split_words :: "jsstring \<Rightarrow> jsstring list" where
  "split_words [] = [[]]"
| "split_words (c # cs) =
     (if isWordSeparator c then [] # split_words (dropWhile isWordSeparator cs)
      else (case split_words cs of
              [] \<Rightarrow> [[c]]
            | p # ps \<Rightarrow> (c # p) # ps))"
  by pat_completeness auto
termination
  by (relation "measure length") (auto simp: less_Suc_eq_le length_dropWhile_le)

text \<open>
  \<open>tags.sort(cmp)\<close>: ECMAScript requires a stable sort, and for a consistent comparator
  the stable sorted arrangement is unique; insertion from the right computes it.
\<close>

fun insert_by :: "('a \<Rightarrow> 'a \<Rightarrow> int) \<Rightarrow> 'a \<Rightarrow> 'a list \<Rightarrow> 'a list" where
  "insert_by cmp x [] = [x]"
| "insert_by cmp x (y # ys) = (if cmp x y \<le> 0 then x # y # ys else y # insert_by cmp x ys)"

definition js_sort :: "('a \<Rightarrow> 'a \<Rightarrow> int) \<Rightarrow> 'a list \<Rightarrow> 'a list" where
  "js_sort cmp xs = foldr (insert_by cmp) xs []"

text \<open>
  An entry of the \<open>tags\<close> array. The vault's folders are an input: the list of
  \<open>folder.path\<close> in the order of \<open>getAllFolders()\<close>. \<open>String.prototype.toLowerCase\<close> is a
  parameter (its Unicode tables are not part of the program). \<open>word_hits\<close> is the inner
  loop over the words, \<open>collect_tags\<close> the loop over the folders.
\<close>

record tag =
  folder :: jsstring
  score :: int

definition word_hits :: "jsstring \<Rightarrow> jsstring list \<Rightarrow> int \<Rightarrow> int" where
  "word_hits lowerText folderWords score0 =
     fold (\<lambda>word sc. if length word > 2 \<and> includes_str lowerText word then sc + 3 else sc)
       folderWords score0"

fun collect_tags :: "(jsstring \<Rightarrow> jsstring) \<Rightarrow> jsstring \<Rightarrow> jsstring list \<Rightarrow> tag list \<Rightarrow> tag list" where
  "collect_tags toLowerCase lowerText [] tags = tags"
| "collect_tags toLowerCase lowerText (path # folders) tags =
     (if path = [] \<or> path = js ''/'' then collect_tags toLowerCase lowerText folders tags
      else
        (let parts = split_char slash path;
             folderName = parts ! (length parts - 1);
             lowerFolderName = toLowerCase folderName;
             score0 = (if includes_str lowerText lowerFolderName then 10 else 0);
             folderWords = split_words lowerFolderName;
             sc = word_hits lowerText folderWords score0
         in collect_tags toLowerCase lowerText folders
              (if sc > 0 then tags @ [\<lparr>folder = folderName, score = sc\<rparr>] else tags)))"

definition suggestTagsKeyword :: "(jsstring \<Rightarrow> jsstring) \<Rightarrow> jsstring list \<Rightarrow> jsstring \<Rightarrow> jsstring list" where
  "suggestTagsKeyword toLowerCase folders text =
     (let lowerText = toLowerCase text;
          tags = collect_tags toLowerCase lowerText folders [];
          sorted = js_sort (\<lambda>a b. score b - score a) tags
      in map folder (take 3 sorted))"

text \<open>
  The specification's reading: the leaf name is the last segment of the path; its
  score is 10 if the lower-cased leaf occurs in the lower-cased text, plus 3 for each
  word longer than 2 that occurs there; the candidates are the non-root folders with
  a positive score, in enumeration order; the ranking sorts them by descending score.
\<close>

definition leaf_name :: "jsstring \<Rightarrow> jsstring" where
  "leaf_name p = rev (takeWhile (\<lambda>c. c \<noteq> slash) (rev p))"

definition keyword_score :: "(jsstring \<Rightarrow> jsstring) \<Rightarrow> jsstring \<Rightarrow> jsstring \<Rightarrow> int" where
  "keyword_score toLowerCase text leaf =
     (let t = toLowerCase text; l = toLowerCase leaf
      in (if includes_str t l then 10 else 0)
         + 3 * int (length (filter (\<lambda>w. length w > 2 \<and> includes_str t w) (split_words l))))"

definition keyword_candidates :: "(jsstring \<Rightarrow> jsstring) \<Rightarrow> jsstring list \<Rightarrow> jsstring \<Rightarrow> tag list" where
  "keyword_candidates toLowerCase folders text =
     filter (\<lambda>t. score t > 0)
       (map (\<lambda>p. \<lparr>folder = leaf_name p, score = keyword_score toLowerCase text (leaf_name p)\<rparr>)
          (filter (\<lambda>p. p \<noteq> [] \<and> p \<noteq> js ''/'') folders))"

definition keyword_ranking :: "(jsstring \<Rightarrow> jsstring) \<Rightarrow> jsstring list \<Rightarrow> jsstring \<Rightarrow> tag list" where
  "keyword_ranking toLowerCase folders text =
     sort_key (\<lambda>t. - score t) (keyword_candidates toLowerCase folders text)"

text \<open>Lower-casing of the ASCII letters, an instance of the parameter for examples.\<close>

definition toLowerCase_ascii :: "jsstring \<Rightarrow> jsstring" where
  "toLowerCase_ascii s = map (\<lambda>c. if 0x41 \<le> c \<and> c \<le> 0x5A then c + 0x20 else c) s"

section \<open>TagSuggester: \<open>suggestTagsOpenAI\<close>\<close>

text \<open>
  A value produced by \<open>JSON.parse\<close> or \<open>response.json()\<close>. The outcome of \<open>fetch\<close> is
  either a rejected promise (\<open>FetchError\<close>) or a response with its status and body
  text; \<open>response.ok\<close> holds for a status from 200 to 299.
\<close>

datatype json =
    JNull
  | JBool bool
  | JNumber real
  | JString jsstring
  | JArray "json list"
  | JObject "(jsstring \<times> json) list"

datatype fetch_result = FetchError | Response nat jsstring

definition response_ok :: "nat \<Rightarrow> bool" where
  "response_ok status \<longleftrightarrow> 200 \<le> status \<and> status \<le> 299"

text \<open>
  \<open>data.choices[0].message.content.trim()\<close>: \<open>property v k\<close> is \<open>v.k\<close> for a name \<open>k\<close>
  that no prototype defines, \<open>element0 v\<close> is \<open>v[0]\<close>. \<open>None\<close> stands for \<open>undefined\<close> or a
  thrown \<open>TypeError\<close>: the next access on \<open>undefined\<close> throws, and so does \<open>.trim()\<close> on
  anything but a string, so the chain yields a value only when the content is a string.
\<close>

fun property :: "json \<Rightarrow> jsstring \<Rightarrow> json option" where
  "property (JObject kvs) k = map_of kvs k"
| "property _ k = None"

fun element0 :: "json \<Rightarrow> json option" where
  "element0 (JArray xs) = (case xs of [] \<Rightarrow> None | x # _ \<Rightarrow> Some x)"
| "element0 (JString s) = (case s of [] \<Rightarrow> None | c # _ \<Rightarrow> Some (JString [c]))"
| "element0 (JObject kvs) = map_of kvs (js ''0'')"
| "element0 _ = None"

definition message_content :: "json \<Rightarrow> jsstring option" where
  "message_content data =
     (case Option.bind (Option.bind (Option.bind (property data (js ''choices'')) element0)
             (\<lambda>c. property c (js ''message''))) (\<lambda>m. property m (js ''content'')) of
        Some (JString s) \<Rightarrow> Some s
      | _ \<Rightarrow> None)"

fun isArray :: "json \<Rightarrow> bool" where
  "isArray (JArray xs) = True"
| "isArray _ = False"

text \<open>
  The user message of the request. \<open>fetch\<close> and \<open>JSON.parse\<close> are parameters:
  \<open>fetch key prompt\<close> is the outcome of the request made with that key and message,
  \<open>JSON_parse s\<close> is \<open>None\<close> when parsing throws. \<open>response.json()\<close> parses the body text.
  Every \<open>throw\<close> inside the \<open>try\<close> block reaches the \<open>catch\<close>, which returns the keyword
  suggestion. The result may hold any JSON values: the array is not checked further.
\<close>

definition chat_prompt :: "jsstring list \<Rightarrow> jsstring \<Rightarrow> jsstring" where
  "chat_prompt folderNames text =
     js ''Note content:'' @ [newline] @ text @ [newline, newline]
     @ js ''Available tags:'' @ [newline] @ join (js '', '') folderNames @ [newline, newline]
     @ js ''Return the 3 most relevant tags as a JSON array.''"

definition suggestTagsOpenAI ::
  "(jsstring \<Rightarrow> jsstring) \<Rightarrow> (jsstring \<Rightarrow> json option) \<Rightarrow> (jsstring \<Rightarrow> jsstring \<Rightarrow> fetch_result)
     \<Rightarrow> jsstring \<Rightarrow> jsstring list \<Rightarrow> jsstring \<Rightarrow> json list" where
  "suggestTagsOpenAI toLowerCase JSON_parse fetch openAIApiKey folders text =
     (if openAIApiKey = [] then map JString (suggestTagsKeyword toLowerCase folders text)
      else
        (let folderNames =
               map (\<lambda>p. let parts = split_char slash p in parts ! (length parts - 1))
                 (filter (\<lambda>p. p \<noteq> [] \<and> p \<noteq> js ''/'') folders)
         in if length folderNames = 0 then []
            else
              (case fetch openAIApiKey (chat_prompt folderNames text) of
                 FetchError \<Rightarrow> map JString (suggestTagsKeyword toLowerCase folders text)
               | Response status body \<Rightarrow>
                   if \<not> response_ok status
                   then map JString (suggestTagsKeyword toLowerCase folders text)
                   else
                     (case JSON_parse body of
                        None \<Rightarrow> map JString (suggestTagsKeyword toLowerCase folders text)
                      | Some data \<Rightarrow>
                          (case message_content data of
                             None \<Rightarrow> map JString (suggestTagsKeyword toLowerCase folders text)
                           | Some content \<Rightarrow>
                               (case JSON_parse (trim content) of
                                  None \<Rightarrow> map JString (suggestTagsKeyword toLowerCase folders text)
                                | Some tags \<Rightarrow>
                                    (case tags of
                                       JArray xs \<Rightarrow> take 3 xs
                                     | _ \<Rightarrow> map JString
                                             (suggestTagsKeyword toLowerCase folders text))))))))"

text \<open>The candidate tags sent to the service: the leaf names of the non-root folders.\<close>

definition folder_names :: "jsstring list \<Rightarrow> jsstring list" where
  "folder_names folders = map leaf_name (filter (\<lambda>p. p \<noteq> [] \<and> p \<noteq> js ''/'') folders)"

section \<open>File names and the vault\<close>

text \<open>
  \<open>name.replace(/[\\/:*?"<>|]/g, '-')\<close> replaces every unit of the class by a hyphen.
  \<open>safeTitle.replace(/\.\.\.$/, '')\<close> removes three dots at the very end.
  \<open>/\.[^.]+$/\<close> matches at the leftmost dot that is followed, up to the end, by at
  least one unit and no further dot: \<open>extension_match\<close> returns the name without the
  match (\<open>baseFilename\<close>) and the match, empty when there is none (\<open>extension\<close>).
\<close>

definition sanitize :: "jsstring \<Rightarrow> jsstring" where
  "sanitize name =
     map (\<lambda>c. if c \<in> set [0x5C, 0x2F, 0x3A, 0x2A, 0x3F, 0x22, 0x3C, 0x3E, 0x7C] then hyphen else c) name"

definition strip_ellipsis :: "jsstring \<Rightarrow> jsstring" where
  "strip_ellipsis s = (if endsWith s (js ''...'') then take (length s - 3) s else s)"

fun extension_match :: "jsstring \<Rightarrow> jsstring \<times> jsstring" where
  "extension_match [] = ([], [])"
| "extension_match (c # cs) =
     (if c = dot \<and> cs \<noteq> [] \<and> dot \<notin> set cs then ([], c # cs)
      else (case extension_match cs of (b, e) \<Rightarrow> (c # b, e)))"

text \<open>
  The vault is the list of paths at which \<open>getAbstractFileByPath\<close> finds an entry.
  The loop \<open>while (getAbstractFileByPath(finalPath)) { finalPath = ...counter...; counter++ }\<close>
  of \<open>createNoteFromClipboard\<close> and of \<open>downloadImage\<close> is \<open>free_path\<close>; a run that never
  leaves the loop has the value \<open>None\<close>. The counter is a natural number (the
  JavaScript number is exact below \<open>2^53\<close>).
\<close>

type_synonym vault = "jsstring list"

partial_function (option) free_path ::
  "(jsstring \<Rightarrow> bool) \<Rightarrow> (nat \<Rightarrow> jsstring) \<Rightarrow> jsstring \<Rightarrow> nat \<Rightarrow> jsstring option" where
  "free_path occupied candidate finalPath counter =
     (if occupied finalPath then free_path occupied candidate (candidate counter) (counter + 1)
      else Some finalPath)"

text \<open>
  The host application as seen by one run: \<open>normalizePath\<close>, the attachment setting,
  and the outcome of each request and write (\<open>None\<close> when the promise is rejected,
  otherwise the status, or the vault after the write).
\<close>

record host =
  normalizePath :: "jsstring \<Rightarrow> jsstring"
  attachmentFolderPath :: "jsstring option"
  requestUrl :: "jsstring \<Rightarrow> nat option"
  createFolder :: "vault \<Rightarrow> jsstring \<Rightarrow> vault option"
  createBinary :: "vault \<Rightarrow> jsstring \<Rightarrow> vault option"
  create :: "vault \<Rightarrow> jsstring \<Rightarrow> jsstring \<Rightarrow> vault option"
  modify :: "vault \<Rightarrow> jsstring \<Rightarrow> jsstring \<Rightarrow> vault option"

definition ensureFolderExists :: "host \<Rightarrow> vault \<Rightarrow> jsstring \<Rightarrow> vault option" where
  "ensureFolderExists h v folderPath =
     (let normalizedPath = normalizePath h folderPath
      in if normalizedPath \<in> set v then Some v else createFolder h v normalizedPath)"

definition image_candidate :: "host \<Rightarrow> jsstring \<Rightarrow> jsstring \<Rightarrow> nat \<Rightarrow> jsstring" where
  "image_candidate h attachmentFolder safeFilename counter =
     (case extension_match safeFilename of
        (baseFilename, extension) \<Rightarrow>
          normalizePath h (attachmentFolder @ js ''/'' @ baseFilename @ js ''-''
                           @ number_to_string (int counter) @ extension))"

definition image_path :: "host \<Rightarrow> vault \<Rightarrow> jsstring \<Rightarrow> jsstring \<Rightarrow> jsstring option" where
  "image_path h v attachmentFolder filename =
     (let safeFilename = sanitize filename;
          filePath = normalizePath h (attachmentFolder @ js ''/'' @ safeFilename)
      in free_path (\<lambda>p. p \<in> set v) (image_candidate h attachmentFolder safeFilename) filePath 1)"

definition attachment_folder_ready :: "host \<Rightarrow> vault \<Rightarrow> jsstring \<Rightarrow> vault option" where
  "attachment_folder_ready h v attachmentFolder =
     (if attachmentFolder \<noteq> js ''.'' \<and> attachmentFolder \<noteq> js ''/''
      then ensureFolderExists h v attachmentFolder else Some v)"

definition downloadImage ::
  "host \<Rightarrow> vault \<Rightarrow> jsstring \<Rightarrow> jsstring \<Rightarrow> jsstring \<Rightarrow> (jsstring \<times> vault) option" where
  "downloadImage h v imageUrl filename notePath =
     (case requestUrl h imageUrl of
        None \<Rightarrow> Some (imageUrl, v)
      | Some status \<Rightarrow>
          if status \<noteq> 200 then Some (imageUrl, v)
          else
            (let attachmentFolder = getAttachmentFolder (attachmentFolderPath h) notePath
             in case attachment_folder_ready h v attachmentFolder of
                  None \<Rightarrow> Some (imageUrl, v)
                | Some v1 \<Rightarrow>
                    (case image_path h v1 attachmentFolder filename of
                       None \<Rightarrow> None
                     | Some finalPath \<Rightarrow>
                         (case createBinary h v1 finalPath of
                            None \<Rightarrow> Some (imageUrl, v1)
                          | Some v2 \<Rightarrow> Some (finalPath, v2)))))"

definition note_candidate :: "host \<Rightarrow> jsstring \<Rightarrow> jsstring \<Rightarrow> nat \<Rightarrow> jsstring" where
  "note_candidate h inboxFolder safeTitle counter =
     (let baseTitle = strip_ellipsis safeTitle
      in normalizePath h (inboxFolder @ js ''/'' @ baseTitle @ js ''-''
                          @ number_to_string (int counter) @ js ''.md''))"

definition note_path :: "host \<Rightarrow> vault \<Rightarrow> jsstring \<Rightarrow> jsstring \<Rightarrow> jsstring option" where
  "note_path h v inboxFolder title =
     (let safeTitle = sanitize title;
          fileName = safeTitle @ js ''.md'';
          filePath = normalizePath h (inboxFolder @ js ''/'' @ fileName)
      in free_path (\<lambda>p. p \<in> set v) (note_candidate h inboxFolder safeTitle) filePath 1)"

text \<open>
  The host keeps numbered candidates apart: \<open>normalizePath\<close> never maps two paths that
  differ only in the decimal counter to the same path.
\<close>

definition numbering_distinct :: "host \<Rightarrow> bool" where
  "numbering_distinct h \<longleftrightarrow>
     (\<forall>pre post j k. normalizePath h (pre @ decimal j @ post) = normalizePath h (pre @ decimal k @ post)
        \<longrightarrow> j = k)"

text \<open>
  A host for the examples: paths are already normal, every request answers 200 and
  every write succeeds.
\<close>

definition example_host :: host where
  "example_host =
     \<lparr>normalizePath = (\<lambda>p. p), attachmentFolderPath = None, requestUrl = (\<lambda>u. Some 200),
      createFolder = (\<lambda>v p. Some (v @ [p])), createBinary = (\<lambda>v p. Some (v @ [p])),
      create = (\<lambda>v p c. Some (v @ [p])), modify = (\<lambda>v p c. Some v)\<rparr>"

section \<open>ImageUrlResolver: \<open>convertRelativeImageUrls\<close>\<close>

text \<open>
  The pattern \<open>/!\[([^\]]*)\]\(([^)]+)\)/g\<close> at the start of a string: \<open>![\<close>, then
  every unit up to the next \<open>]\<close> (the alt text), then \<open>](\<close>, then every unit up to the
  next \<open>)\<close> (the URL, not empty), then \<open>)\<close>. The two negated classes take all they can
  and giving units back cannot make the next literal match, so the match at a
  position is unique. The result is the alt text, the URL and the text after the
  match; the matched text is \<open>image_text alt url\<close>.
\<close>

definition match_image :: "jsstring \<Rightarrow> (jsstring \<times> jsstring \<times> jsstring) option" where
  "match_image s =
     (case s of
        c1 # c2 # t \<Rightarrow>
          if c1 = bang \<and> c2 = lbracket then
            (let alt = takeWhile (\<lambda>c. c \<noteq> rbracket) t
             in case dropWhile (\<lambda>c. c \<noteq> rbracket) t of
                  _ # p # t2 \<Rightarrow>
                    if p = lparen then
                      (let url = takeWhile (\<lambda>c. c \<noteq> rparen) t2
                       in case dropWhile (\<lambda>c. c \<noteq> rparen) t2 of
                            _ # rest \<Rightarrow> if url \<noteq> [] then Some (alt, url, rest) else None
                          | [] \<Rightarrow> None)
                    else None
                | _ \<Rightarrow> None)
          else None
      | _ \<Rightarrow> None)"

definition image_text :: "jsstring \<Rightarrow> jsstring \<Rightarrow> jsstring" where
  "image_text alt url = [bang, lbracket] @ alt @ [rbracket, lparen] @ url @ [rparen]"

text \<open>
  The loop \<open>while ((match = imageRegex.exec(markdownContent)) !== null)\<close>: the search
  goes on from the end of the last match and tries each position in turn.
  \<open>image_tokens\<close> keeps the units that are passed over as well as the matches;
  \<open>scan_images\<close> is the sequence of matches that the loop sees.
\<close>

function image_tokens :: "jsstring \<Rightarrow> (jschar + jsstring \<times> jsstring) list" where
  "image_tokens [] = []"
| "image_tokens (c # cs) =
     (case match_image (c # cs) of
        Some (alt, url, rest) \<Rightarrow> Inr (alt, url) # image_tokens rest
      | None \<Rightarrow> Inl c # image_tokens cs)"
  by pat_completeness auto
termination
proof (relation "measure length")
  show "wf (measure length)" by simp
next
  fix c cs x2 x y xa ya
  assume "match_image (c # cs) = Some x2" "(x, y) = x2" "(xa, ya) = y"
  then have m: "match_image (c # cs) = Some (x, xa, ya)" by simp
  have le: "length (dropWhile P zs) \<le> length zs" for P and zs :: jsstring
    by (rule length_dropWhile_le)
  from m obtain t q t2 r where
    "cs = lbracket # t" "dropWhile (\<lambda>c. c \<noteq> rbracket) t = q # lparen # t2"
    "dropWhile (\<lambda>c. c \<noteq> rparen) t2 = r # ya"
    by (auto simp: match_image_def Let_def split: list.splits if_splits)
  with le [of "\<lambda>c. c \<noteq> rbracket" t] le [of "\<lambda>c. c \<noteq> rparen" t2]
  have "length ya < Suc (length cs)" by simp
  then show "(ya, c # cs) \<in> measure length" by simp
next
  fix c :: jschar and cs :: jsstring
  show "(cs, c # cs) \<in> measure length" by simp
qed

definition scan_images :: "jsstring \<Rightarrow> (jsstring \<times> jsstring) list" where
  "scan_images s = [m. Inr m \<leftarrow> image_tokens s]"

text \<open>
  \<open>result.replace(original, replacement)\<close> with two strings: the first occurrence of
  \<open>original\<close> is replaced, and in \<open>replacement\<close> the patterns \<open>$$\<close>, \<open>$&\<close>, \<open>$`\<close> and \<open>$'\<close>
  stand for a dollar sign, the matched text, the text before it and the text after it
  (there are no capture groups, so \<open>$1\<close> and the like stay as they are).
\<close>

fun find_first :: "jsstring \<Rightarrow> jsstring \<Rightarrow> (jsstring \<times> jsstring) option" where
  "find_first pat [] = (if pat = [] then Some ([], []) else None)"
| "find_first pat (c # cs) =
     (if startsWith (c # cs) pat then Some ([], drop (length pat) (c # cs))
      else (case find_first pat cs of
              None \<Rightarrow> None
            | Some (before, after) \<Rightarrow> Some (c # before, after)))"

fun get_substitution :: "jsstring \<Rightarrow> jsstring \<Rightarrow> jsstring \<Rightarrow> jsstring \<Rightarrow> jsstring" where
  "get_substitution matched before after [] = []"
| "get_substitution matched before after [c] = [c]"
| "get_substitution matched before after (c # d # t) =
     (if c = dollar \<and> d = dollar then dollar # get_substitution matched before after t
      else if c = dollar \<and> d = ampersand then matched @ get_substitution matched before after t
      else if c = dollar \<and> d = backtick then before @ get_substitution matched before after t
      else if c = dollar \<and> d = apostrophe then after @ get_substitution matched before after t
      else c # get_substitution matched before after (d # t))"

definition replace_first :: "jsstring \<Rightarrow> jsstring \<Rightarrow> jsstring \<Rightarrow> jsstring" where
  "replace_first s pat replacement =
     (case find_first pat s of
        None \<Rightarrow> s
      | Some (before, after) \<Rightarrow> before @ get_substitution pat before after replacement @ after)"

text \<open>
  \<open>new URL(imageUrl, normalizedBaseUrl).toString()\<close> is the parameter \<open>URL_resolve\<close>,
  with \<open>None\<close> when the constructor throws. \<open>absolute_replacements\<close> is the body of the
  loop over the matches, \<open>apply_replacements\<close> the loop that applies the replacements.
\<close>

fun absolute_replacements ::
  "(jsstring \<Rightarrow> jsstring \<Rightarrow> jsstring option) \<Rightarrow> jsstring \<Rightarrow> (jsstring \<times> jsstring) list
     \<Rightarrow> (jsstring \<times> jsstring) list \<Rightarrow> (jsstring \<times> jsstring) list" where
  "absolute_replacements URL_resolve normalizedBaseUrl [] replacements = replacements"
| "absolute_replacements URL_resolve normalizedBaseUrl ((alt, imageUrl) # matches) replacements =
     (if startsWith imageUrl (js ''http://'') \<or> startsWith imageUrl (js ''https://'')
      then absolute_replacements URL_resolve normalizedBaseUrl matches replacements
      else if startsWith imageUrl (js ''data:'') \<or> startsWith imageUrl (js ''blob:'')
      then absolute_replacements URL_resolve normalizedBaseUrl matches replacements
      else
        (case URL_resolve imageUrl normalizedBaseUrl of
           Some absoluteUrl \<Rightarrow>
             absolute_replacements URL_resolve normalizedBaseUrl matches
               (replacements @ [(image_text alt imageUrl, image_text alt absoluteUrl)])
         | None \<Rightarrow> absolute_replacements URL_resolve normalizedBaseUrl matches replacements))"

definition apply_replacements :: "(jsstring \<times> jsstring) list \<Rightarrow> jsstring \<Rightarrow> jsstring" where
  "apply_replacements replacements markdownContent =
     fold (\<lambda>(original, replacement) result. replace_first result original replacement)
       replacements markdownContent"

definition convertRelativeImageUrls ::
  "(jsstring \<Rightarrow> jsstring \<Rightarrow> jsstring option) \<Rightarrow> jsstring \<Rightarrow> jsstring \<Rightarrow> jsstring" where
  "convertRelativeImageUrls URL_resolve markdownContent baseUrl =
     (let normalizedBaseUrl = (if \<not> endsWith baseUrl (js ''/'') then baseUrl @ js ''/'' else baseUrl);
          replacements = absolute_replacements URL_resolve normalizedBaseUrl
                           (scan_images markdownContent) []
      in apply_replacements replacements markdownContent)"

text \<open>
  The specification's reading of the pass. \<open>resolution\<close> is what a reference's URL is
  resolved to: nothing for a URL with one of the four prefixes or a failing
  resolution, else its resolution against the base URL taken as a directory.
  \<open>absolutize_spec\<close> rewrites every image reference where it stands and keeps all
  other text. \<open>dollar_pattern_free\<close> holds of a string in which no dollar sign is
  followed by \<open>$\<close>, \<open>&\<close>, \<open>`\<close> or \<open>'\<close>: a string without any of the four patterns that
  \<open>String.replace\<close> expands. \<open>first_occurrence_ok\<close> holds when, for each reference that is
  resolved, the first occurrence of its text in the partly rewritten Markdown is the
  reference itself, and neither its alt text nor its resolved URL holds one of the
  four patterns.
\<close>

definition resolution :: "(jsstring \<Rightarrow> jsstring \<Rightarrow> jsstring option) \<Rightarrow> jsstring \<Rightarrow> jsstring \<Rightarrow> jsstring option" where
  "resolution URL_resolve baseUrl url =
     (if prefix (js ''http://'') url \<or> prefix (js ''https://'') url
         \<or> prefix (js ''data:'') url \<or> prefix (js ''blob:'') url
      then None
      else URL_resolve url (if suffix (js ''/'') baseUrl then baseUrl else baseUrl @ js ''/''))"

fun rewrite_token :: "(jsstring \<Rightarrow> jsstring option) \<Rightarrow> jschar + jsstring \<times> jsstring \<Rightarrow> jsstring" where
  "rewrite_token conv (Inl c) = [c]"
| "rewrite_token conv (Inr (alt, url)) =
     (case conv url of None \<Rightarrow> image_text alt url | Some absolute \<Rightarrow> image_text alt absolute)"

definition absolutize_spec ::
  "(jsstring \<Rightarrow> jsstring \<Rightarrow> jsstring option) \<Rightarrow> jsstring \<Rightarrow> jsstring \<Rightarrow> jsstring" where
  "absolutize_spec URL_resolve markdownContent baseUrl =
     concat (map (rewrite_token (resolution URL_resolve baseUrl)) (image_tokens markdownContent))"

fun dollar_pattern_free :: "jsstring \<Rightarrow> bool" where
  "dollar_pattern_free [] = True"
| "dollar_pattern_free [c] = True"
| "dollar_pattern_free (c # d # t) =
     ((c \<noteq> dollar \<or> (d \<noteq> dollar \<and> d \<noteq> ampersand \<and> d \<noteq> backtick \<and> d \<noteq> apostrophe))
      \<and> dollar_pattern_free (d # t))"

fun first_occurrence_ok ::
  "(jsstring \<Rightarrow> jsstring option) \<Rightarrow> jsstring \<Rightarrow> (jschar + jsstring \<times> jsstring) list \<Rightarrow> bool" where
  "first_occurrence_ok conv rewritten [] = True"
| "first_occurrence_ok conv rewritten (Inl c # ts) = first_occurrence_ok conv (rewritten @ [c]) ts"
| "first_occurrence_ok conv rewritten (Inr (alt, url) # ts) =
     (case conv url of
        None \<Rightarrow> first_occurrence_ok conv (rewritten @ image_text alt url) ts
      | Some absolute \<Rightarrow>
          find_first (image_text alt url)
            (rewritten @ image_text alt url @ concat (map (rewrite_token (\<lambda>u. None)) ts))
            = Some (rewritten, concat (map (rewrite_token (\<lambda>u. None)) ts))
          \<and> dollar_pattern_free alt \<and> dollar_pattern_free absolute
          \<and> first_occurrence_ok conv (rewritten @ image_text alt absolute) ts)"

text \<open>
  Reference resolution of RFC 3986, section 5.2, as an instance of \<open>URL_resolve\<close> for
  the examples only; every general statement takes \<open>URL_resolve\<close> as a parameter. It
  does no percent-encoding and fails only for a base without a scheme, so it is not
  \<open>new URL(rel, base)\<close> on every input; the two agree on the inputs of the examples
  (an \<open>http(s)\<close> base and relative paths of ASCII letters, digits and \<open>. / $ & ! [ ] (\<close>,
  none of which \<open>new URL\<close> encodes in a path).
\<close>

definition take_scheme :: "jsstring \<Rightarrow> jsstring option \<times> jsstring" where
  "take_scheme s =
     (let p = takeWhile (\<lambda>c. c \<notin> set [colon, slash, question, hash]) s
      in case dropWhile (\<lambda>c. c \<notin> set [colon, slash, question, hash]) s of
           [] \<Rightarrow> (None, s)
         | c # rest \<Rightarrow> if c = colon \<and> p \<noteq> [] then (Some p, rest) else (None, s))"

definition take_authority :: "jsstring \<Rightarrow> jsstring option \<times> jsstring" where
  "take_authority s =
     (if startsWith s (js ''//'')
      then (Some (takeWhile (\<lambda>c. c \<notin> set [slash, question, hash]) (drop 2 s)),
            dropWhile (\<lambda>c. c \<notin> set [slash, question, hash]) (drop 2 s))
      else (None, s))"

definition take_query :: "jsstring \<Rightarrow> jsstring option \<times> jsstring" where
  "take_query s =
     (case s of
        [] \<Rightarrow> (None, s)
      | c # r \<Rightarrow> if c = question
                 then (Some (takeWhile (\<lambda>c. c \<noteq> hash) r), dropWhile (\<lambda>c. c \<noteq> hash) r)
                 else (None, s))"

definition take_fragment :: "jsstring \<Rightarrow> jsstring option" where
  "take_fragment s = (case s of [] \<Rightarrow> None | c # r \<Rightarrow> if c = hash then Some r else None)"

record uri =
  uri_scheme :: "jsstring option"
  uri_authority :: "jsstring option"
  uri_path :: jsstring
  uri_query :: "jsstring option"
  uri_fragment :: "jsstring option"

definition parse_uri :: "jsstring \<Rightarrow> uri" where
  "parse_uri s =
     (case take_scheme s of (sch, s1) \<Rightarrow>
      case take_authority s1 of (auth, s2) \<Rightarrow>
      case take_query (dropWhile (\<lambda>c. c \<notin> set [question, hash]) s2) of (q, s3) \<Rightarrow>
        \<lparr>uri_scheme = sch, uri_authority = auth,
         uri_path = takeWhile (\<lambda>c. c \<notin> set [question, hash]) s2,
         uri_query = q, uri_fragment = take_fragment s3\<rparr>)"

fun pop_segment :: "jsstring list \<Rightarrow> jsstring list" where
  "pop_segment [] = []"
| "pop_segment [x] = [[]]"
| "pop_segment xs = butlast xs"

fun dot_segments :: "jsstring list \<Rightarrow> jsstring list \<Rightarrow> jsstring list" where
  "dot_segments out [] = out"
| "dot_segments out (s # rest) =
     (if s = js ''.'' then
        (if rest = [] then out @ [[]] else dot_segments out rest)
      else if s = js ''..'' then
        (if rest = [] then pop_segment out @ [[]] else dot_segments (pop_segment out) rest)
      else dot_segments (out @ [s]) rest)"

definition remove_dot_segments :: "jsstring \<Rightarrow> jsstring" where
  "remove_dot_segments p = join (js ''/'') (dot_segments [] (split_char slash p))"

definition merge_paths :: "jsstring option \<Rightarrow> jsstring \<Rightarrow> jsstring \<Rightarrow> jsstring" where
  "merge_paths base_authority base_path reference_path =
     (if base_authority \<noteq> None \<and> base_path = [] then js ''/'' @ reference_path
      else rev (dropWhile (\<lambda>c. c \<noteq> slash) (rev base_path)) @ reference_path)"

definition recompose :: "uri \<Rightarrow> jsstring" where
  "recompose u =
     (case uri_scheme u of None \<Rightarrow> [] | Some s \<Rightarrow> s @ js '':'')
     @ (case uri_authority u of None \<Rightarrow> [] | Some a \<Rightarrow> js ''//'' @ a)
     @ uri_path u
     @ (case uri_query u of None \<Rightarrow> [] | Some q \<Rightarrow> js ''?'' @ q)
     @ (case uri_fragment u of None \<Rightarrow> [] | Some f \<Rightarrow> js ''#'' @ f)"

definition rfc3986_resolve :: "jsstring \<Rightarrow> jsstring \<Rightarrow> jsstring option" where
  "rfc3986_resolve reference base =
     (let b = parse_uri base; r = parse_uri reference
      in if uri_scheme b = None then None
         else if uri_scheme r \<noteq> None then
           Some (recompose (r\<lparr>uri_path := remove_dot_segments (uri_path r)\<rparr>))
         else if uri_authority r \<noteq> None then
           Some (recompose (r\<lparr>uri_scheme := uri_scheme b,
                              uri_path := remove_dot_segments (uri_path r)\<rparr>))
         else if uri_path r = [] then
           Some (recompose (b\<lparr>uri_query := (if uri_query r \<noteq> None then uri_query r else uri_query b),
                              uri_fragment := uri_fragment r\<rparr>))
         else if startsWith (uri_path r) (js ''/'') then
           Some (recompose (b\<lparr>uri_path := remove_dot_segments (uri_path r),
                              uri_query := uri_query r, uri_fragment := uri_fragment r\<rparr>))
         else
           Some (recompose (b\<lparr>uri_path := remove_dot_segments
                                            (merge_paths (uri_authority b) (uri_path b) (uri_path r)),
                              uri_query := uri_query r, uri_fragment := uri_fragment r\<rparr>)))"

section \<open>ImageUrlResolver: \<open>downloadImagesInContent\<close>\<close>

text \<open>
  The loop over the image references of the localize pass, with the vault threaded
  through the downloads. \<open>new URL(imageUrl).pathname\<close> is the parameter \<open>URL_pathname\<close>
  (\<open>None\<close> when the constructor throws; the \<open>catch\<close> then skips the reference).
  \<open>pathname.split('/').pop() || 'image.jpg'\<close> is the last piece, or \<open>image.jpg\<close> when it
  is empty. The parameter \<open>baseUrl\<close> is not used by the function.
\<close>

fun download_replacements ::
  "host \<Rightarrow> (jsstring \<Rightarrow> jsstring option) \<Rightarrow> jsstring \<Rightarrow> jsstring \<Rightarrow> (jsstring \<times> jsstring) list
     \<Rightarrow> vault \<Rightarrow> (jsstring \<times> jsstring) list \<Rightarrow> ((jsstring \<times> jsstring) list \<times> vault) option" where
  "download_replacements h URL_pathname notePath imagePrefix [] v replacements = Some (replacements, v)"
| "download_replacements h URL_pathname notePath imagePrefix ((alt, imageUrl) # matches) v replacements =
     (if \<not> startsWith imageUrl (js ''http://'') \<and> \<not> startsWith imageUrl (js ''https://'')
      then download_replacements h URL_pathname notePath imagePrefix matches v replacements
      else
        (case URL_pathname imageUrl of
           None \<Rightarrow> download_replacements h URL_pathname notePath imagePrefix matches v replacements
         | Some pathname \<Rightarrow>
             (let parts = split_char slash pathname;
                  lastPart = parts ! (length parts - 1);
                  filename = (if lastPart \<noteq> [] then lastPart else js ''image.jpg'');
                  filename' = (if \<not> includes_str filename (js ''.'') then filename @ js ''.jpg''
                               else filename);
                  prefixedFilename = imagePrefix @ js ''_'' @ filename'
              in case downloadImage h v imageUrl prefixedFilename notePath of
                   None \<Rightarrow> None
                 | Some (localPath, v') \<Rightarrow>
                     download_replacements h URL_pathname notePath imagePrefix matches v'
                       (replacements @ [(image_text alt imageUrl, image_text alt localPath)]))))"

definition downloadImagesInContent ::
  "host \<Rightarrow> (jsstring \<Rightarrow> jsstring option) \<Rightarrow> vault \<Rightarrow> jsstring \<Rightarrow> jsstring \<Rightarrow> jsstring \<Rightarrow> jsstring
     \<Rightarrow> (jsstring \<times> vault) option" where
  "downloadImagesInContent h URL_pathname v markdownContent baseUrl notePath imagePrefix =
     (case download_replacements h URL_pathname notePath imagePrefix (scan_images markdownContent) v [] of
        None \<Rightarrow> None
      | Some (replacements, v') \<Rightarrow> Some (apply_replacements replacements markdownContent, v'))"

section \<open>NoteAssembler: the writes of \<open>createNoteFromClipboard\<close>\<close>

text \<open>
  \<open>createNoteFromClipboard\<close> from the construction of the frontmatter on (the source
  from \<open>const frontmatter = ...\<close> to \<open>vault.modify\<close>). Its arguments \<open>title\<close>, \<open>content\<close>,
  \<open>tags\<close> and \<open>sourceUrl\<close> are the values of these variables after the classification
  phase, \<open>now1\<close> and \<open>now2\<close> are the clock readings of the first and of the second call
  of \<open>createYamlFrontmatter\<close>, \<open>imagePrefix\<close> is the random prefix. The result is the
  list of the writes made, in order, as pairs of path and content: the \<open>vault.create\<close>
  and, when it happens, the \<open>vault.modify\<close>; a thrown error ends the run with the
  writes made so far. \<open>file.path\<close> is the path the file was created at.
\<close>

definition createNoteFromClipboard ::
  "host \<Rightarrow> (jsstring \<Rightarrow> jsstring option) \<Rightarrow> vault \<Rightarrow> jsstring \<Rightarrow> bool \<Rightarrow> Date \<Rightarrow> Date \<Rightarrow> jsstring
     \<Rightarrow> jsstring \<Rightarrow> jsstring \<Rightarrow> jsstring list \<Rightarrow> jsstring option
     \<Rightarrow> (jsstring \<times> jsstring) list option" where
  "createNoteFromClipboard h URL_pathname v inboxFolder downloadImages now1 now2 imagePrefix
       title content tags sourceUrl =
     (let frontmatter = createYamlFrontmatter now1 tags sourceUrl;
          fullContent = frontmatter @ [newline, newline] @ content
      in case ensureFolderExists h v inboxFolder of
           None \<Rightarrow> Some []
         | Some v1 \<Rightarrow>
             (case note_path h v1 inboxFolder title of
                None \<Rightarrow> None
              | Some finalPath \<Rightarrow>
                  (case create h v1 finalPath fullContent of
                     None \<Rightarrow> Some []
                   | Some v2 \<Rightarrow>
                       if (case sourceUrl of None \<Rightarrow> False | Some u \<Rightarrow> u \<noteq> []) \<and> downloadImages
                       then
                         (case downloadImagesInContent h URL_pathname v2 content (the sourceUrl)
                                 finalPath imagePrefix of
                            None \<Rightarrow> None
                          | Some (contentWithLocalImages, v3) \<Rightarrow>
                              (let updatedFrontmatter = createYamlFrontmatter now2 tags sourceUrl;
                                   updatedContent = updatedFrontmatter @ [newline, newline]
                                                    @ contentWithLocalImages
                               in case modify h v3 finalPath updatedContent of
                                    None \<Rightarrow> Some [(finalPath, fullContent)]
                                  | Some v4 \<Rightarrow>
                                      Some [(finalPath, fullContent), (finalPath, updatedContent)]))
                       else Some [(finalPath, fullContent)])))"

text \<open>The minute a clock reading falls in: all its fields.\<close>

definition clock_minute :: "Date \<Rightarrow> int \<times> nat \<times> nat \<times> nat \<times> nat" where
  "clock_minute d = (getFullYear d, getMonth d, getDate d, getHours d, getMinutes d)"

section \<open>Properties of the string primitives\<close>

lemma split_char_nonempty: "split_char sep s \<noteq> []"
  by (induction s) (auto split: list.splits)

lemma length_split_char:
  "length (split_char sep s) = Suc (length (filter (\<lambda>c. c = sep) s))"
proof (induction s)
  case Nil
  show ?case by simp
next
  case (Cons c cs)
  then show ?case
    by (cases "split_char sep cs") auto
qed

lemma split_char_single_iff: "length (split_char sep s) > 1 \<longleftrightarrow> sep \<in> set s"
proof -
  have "filter (\<lambda>c. c = sep) s \<noteq> [] \<longleftrightarrow> sep \<in> set s"
    by (auto simp: filter_empty_conv)
  then show ?thesis
    by (simp add: length_split_char)
qed

lemma startsWith_iff: "startsWith s p \<longleftrightarrow> (\<exists>r. s = p @ r)"
proof
  assume "startsWith s p"
  then have "s = p @ drop (length p) s"
    unfolding startsWith_def by (metis append_take_drop_id)
  then show "\<exists>r. s = p @ r" ..
next
  assume "\<exists>r. s = p @ r"
  then show "startsWith s p"
    unfolding startsWith_def by auto
qed

lemma dot_plus_iff: "dot_plus r \<longleftrightarrow> (\<exists>c t. r = c # t \<and> \<not> isLineTerminator c)"
  by (cases r) (auto simp: dot_plus_def)

lemma test_http_url_iff:
  "test_http_url s \<longleftrightarrow>
     (\<exists>scheme c rest. (scheme = js ''http'' \<or> scheme = js ''https'')
        \<and> \<not> isLineTerminator c \<and> s = scheme @ js ''://'' @ c # rest)"
  (is "?L \<longleftrightarrow> ?R")
proof
  assume ?L
  then consider
      (https) "startsWith s (js ''https://'')" "dot_plus (drop 8 s)"
    | (http) "startsWith s (js ''http://'')" "dot_plus (drop 7 s)"
    unfolding test_http_url_def by blast
  then show ?R
  proof cases
    case https
    from https(1) obtain r where r: "s = js ''https://'' @ r"
      unfolding startsWith_iff by blast
    then have "drop 8 s = r" by (simp add: js_def)
    with https(2) obtain c t where "r = c # t" "\<not> isLineTerminator c"
      unfolding dot_plus_iff by blast
    with r have "s = js ''https'' @ js ''://'' @ c # t"
      by (simp add: js_def)
    with \<open>\<not> isLineTerminator c\<close> show ?thesis by blast
  next
    case http
    from http(1) obtain r where r: "s = js ''http://'' @ r"
      unfolding startsWith_iff by blast
    then have "drop 7 s = r" by (simp add: js_def)
    with http(2) obtain c t where "r = c # t" "\<not> isLineTerminator c"
      unfolding dot_plus_iff by blast
    with r have "s = js ''http'' @ js ''://'' @ c # t"
      by (simp add: js_def)
    with \<open>\<not> isLineTerminator c\<close> show ?thesis by blast
  qed
next
  assume ?R
  then obtain scheme c rest where
    sch: "scheme = js ''http'' \<or> scheme = js ''https''" and
    c: "\<not> isLineTerminator c" and s: "s = scheme @ js ''://'' @ c # rest"
    by blast
  from sch show ?L
  proof
    assume "scheme = js ''http''"
    with s c show ?L
      by (simp add: test_http_url_def startsWith_def dot_plus_def js_def)
  next
    assume "scheme = js ''https''"
    with s c show ?L
      by (simp add: test_http_url_def startsWith_def dot_plus_def js_def)
  qed
qed

lemma last_index_from_absent: "c \<notin> set s \<Longrightarrow> last_index_from c s i f = f"
  by (induction s arbitrary: i f) auto

lemma last_index_from_last:
  "c \<notin> set n \<Longrightarrow> last_index_from c (d @ c # n) i f = i + int (length d)"
  by (induction d arbitrary: i f) (auto simp: last_index_from_absent)

lemma lastIndexOf_absent: "c \<notin> set s \<Longrightarrow> lastIndexOf s c = - 1"
  by (simp add: lastIndexOf_def last_index_from_absent)

lemma lastIndexOf_last: "c \<notin> set n \<Longrightarrow> lastIndexOf (d @ c # n) c = int (length d)"
  by (simp add: lastIndexOf_def last_index_from_last)

lemma substring_prefix: "substring (d @ r) 0 (int (length d)) = d"
  by (simp add: substring_def Let_def)

lemma substring_neg: "e \<le> 0 \<Longrightarrow> substring s 0 e = []"
  by (simp add: substring_def Let_def)

lemma substring_from_drop: "substring_from s (int k) = drop k s"
  by (auto simp: substring_from_def substring_def Let_def min_def max_def)

lemma includes_str_iff: "includes_str s sub \<longleftrightarrow> (\<exists>a b. s = a @ sub @ b)"
proof (induction s)
  case Nil
  show ?case by auto
next
  case (Cons c cs)
  show ?case
  proof
    assume "includes_str (c # cs) sub"
    then consider "startsWith (c # cs) sub" | "includes_str cs sub" by auto
    then show "\<exists>a b. c # cs = a @ sub @ b"
    proof cases
      case 1
      then obtain r where "c # cs = sub @ r" unfolding startsWith_iff by blast
      then have "c # cs = [] @ sub @ r" by simp
      then show ?thesis by blast
    next
      case 2
      with Cons.IH obtain a b where "cs = a @ sub @ b" by blast
      then have "c # cs = (c # a) @ sub @ b" by simp
      then show ?thesis by blast
    qed
  next
    assume "\<exists>a b. c # cs = a @ sub @ b"
    then obtain a b where ab: "c # cs = a @ sub @ b" by blast
    show "includes_str (c # cs) sub"
    proof (cases a)
      case Nil
      with ab have "startsWith (c # cs) sub" unfolding startsWith_iff by auto
      then show ?thesis by simp
    next
      case (Cons x a')
      with ab have "cs = a' @ sub @ b" by simp
      with Cons.IH have "includes_str cs sub" by blast
      then show ?thesis by simp
    qed
  qed
qed

lemma split_char_first: "split_char sep s ! 0 = takeWhile (\<lambda>c. c \<noteq> sep) s"
proof (induction s)
  case Nil
  show ?case by simp
next
  case (Cons c cs)
  then show ?case by (cases "split_char sep cs") (auto simp: split_char_nonempty)
qed

lemma trim_dropWhile: "trim (dropWhile isWhiteSpace s) = trim s"
  by (simp add: trim_def)

lemma strip_heading_trim:
  "trim (strip_heading s) = trim (dropWhile isWhiteSpace (dropWhile (\<lambda>c. c = hash) s))"
proof (cases s)
  case Nil
  then show ?thesis by (simp add: strip_heading_def)
next
  case (Cons c cs)
  show ?thesis
  proof (cases "c = hash")
    case True
    with Cons show ?thesis by (simp add: strip_heading_def)
  next
    case False
    with Cons have "dropWhile (\<lambda>c. c = hash) s = s" "strip_heading s = s"
      by (simp_all add: strip_heading_def)
    then show ?thesis by (simp only: trim_dropWhile)
  qed
qed

lemma generateTitle_cleaned:
  "trim (strip_heading (split_char newline (trim text) ! 0)) = title_line text"
  by (simp add: split_char_first strip_heading_trim title_line_def)

lemma dropWhile_keeps_last:
  "xs \<noteq> [] \<Longrightarrow> \<not> P (last xs) \<Longrightarrow> dropWhile P xs \<noteq> [] \<and> last (dropWhile P xs) = last xs"
  by (induction xs) (auto split: if_splits)

lemma trim_no_leading_space:
  assumes "s = [] \<or> \<not> isWhiteSpace (hd s)"
  shows "trim s = drop_trailing_space s"
proof -
  from assms have "dropWhile isWhiteSpace s = s"
    by (cases s) auto
  then show ?thesis by (simp add: trim_def drop_trailing_space_def)
qed

lemma trim_hd: "trim s \<noteq> [] \<Longrightarrow> \<not> isWhiteSpace (hd (trim s))"
proof -
  assume ne: "trim s \<noteq> []"
  let ?d = "dropWhile isWhiteSpace s"
  have d: "?d \<noteq> []"
  proof
    assume "?d = []"
    moreover have "trim s = rev (dropWhile isWhiteSpace (rev ?d))"
      by (simp only: trim_def)
    ultimately have "trim s = []"
      by (simp only: rev.simps dropWhile.simps)
    with ne show False by simp
  qed
  then have hdd: "\<not> isWhiteSpace (hd ?d)" by (rule hd_dropWhile)
  from d have "rev ?d \<noteq> []" "last (rev ?d) = hd ?d"
    by (simp_all add: last_rev)
  with hdd have k: "dropWhile isWhiteSpace (rev ?d) \<noteq> []"
    "last (dropWhile isWhiteSpace (rev ?d)) = hd ?d"
    using dropWhile_keeps_last [of "rev ?d" isWhiteSpace] by auto
  then have "hd (trim s) = hd ?d"
    by (simp add: trim_def hd_rev)
  with hdd show ?thesis by simp
qed

lemma last_take_Suc: "k < length xs \<Longrightarrow> last (take (Suc k) xs) = xs ! k"
  by (simp add: take_Suc_conv_app_nth)

lemma substring_take: "substring s 0 (int k) = take k s"
  by (auto simp: substring_def Let_def min_def max_def)

lemma decimal_1: "n < 10 \<Longrightarrow> decimal n = [digit n]"
  by (simp add: decimal.simps)

lemma decimal_2: "10 \<le> n \<Longrightarrow> n < 100 \<Longrightarrow> decimal n = two_digits n"
  by (subst decimal.simps) (simp add: decimal_1 two_digits_def)

lemma div_10_10: "(n::nat) div 10 div 10 = n div 100"
  using div_mult2_eq [of n 10 10] by simp

lemma div_10_100: "(n::nat) div 10 div 100 = n div 1000"
  using div_mult2_eq [of n 10 100] by simp

lemma decimal_3: "100 \<le> n \<Longrightarrow> n < 1000 \<Longrightarrow> decimal n = [digit (n div 100), digit (n div 10 mod 10), digit (n mod 10)]"
  by (subst decimal.simps) (simp add: decimal_2 two_digits_def div_10_10)

lemma decimal_4: "1000 \<le> n \<Longrightarrow> n < 10000 \<Longrightarrow> decimal n = four_digits n"
  by (subst decimal.simps) (simp add: decimal_3 four_digits_def div_10_10 div_10_100)

lemma pad_two: "n < 100 \<Longrightarrow> padStart (number_to_string (int n)) 2 (digit 0) = two_digits n"
proof (cases "n < 10")
  case True
  then show ?thesis
    by (simp add: number_to_string_def padStart_def decimal_1 two_digits_def)
next
  case False
  assume "n < 100"
  with False show ?thesis
    by (simp add: number_to_string_def padStart_def decimal_2 two_digits_def)
qed

lemma year_four: "1000 \<le> y \<Longrightarrow> y \<le> 9999 \<Longrightarrow> number_to_string y = four_digits (nat y)"
  by (simp add: number_to_string_def decimal_4)

lemma timestamp_stamp:
  assumes "valid_clock now"
  shows "number_to_string (getFullYear now) @ js ''-''
            @ padStart (number_to_string (int (getMonth now + 1))) 2 (digit 0) @ js ''-''
            @ padStart (number_to_string (int (getDate now))) 2 (digit 0) @ js '' ''
            @ padStart (number_to_string (int (getHours now))) 2 (digit 0) @ js '':''
            @ padStart (number_to_string (int (getMinutes now))) 2 (digit 0) = stamp now"
proof -
  from assms have "getMonth now + 1 < 100" "getDate now < 100" "getHours now < 100"
    "getMinutes now < 100" "1000 \<le> getFullYear now" "getFullYear now \<le> 9999"
    by (simp_all add: valid_clock_def)
  then show ?thesis
    by (simp only: pad_two year_four stamp_def)
qed

lemma split_char_absent: "sep \<notin> set s \<Longrightarrow> split_char sep s = [s]"
  by (induction s) auto

lemma split_char_last:
  "sep \<notin> set n \<Longrightarrow> last (split_char sep (d @ sep # n)) = n"
proof (induction d)
  case Nil
  then show ?case by (simp add: split_char_absent)
next
  case (Cons c d)
  obtain p ps where sp: "split_char sep (d @ sep # n) = p # ps"
    using split_char_nonempty [of sep "d @ sep # n"] by (cases "split_char sep (d @ sep # n)") auto
  have "length (split_char sep (d @ sep # n)) > 1"
    using split_char_single_iff [of sep "d @ sep # n"] by simp
  with sp have ps: "ps \<noteq> []" by auto
  from Cons sp ps show ?case by auto
qed

lemma leaf_name_split:
  "split_char slash p ! (length (split_char slash p) - 1) = leaf_name p"
proof -
  have "split_char slash p ! (length (split_char slash p) - 1) = last (split_char slash p)"
    by (simp add: last_conv_nth split_char_nonempty)
  also have "\<dots> = leaf_name p"
  proof (cases "slash \<in> set p")
    case False
    then have "\<forall>x\<in>set (rev p). x \<noteq> slash"
      by auto
    then have "takeWhile (\<lambda>c. c \<noteq> slash) (rev p) = rev p"
      by (rule takeWhile_eq_all_conv [THEN iffD2])
    then have "leaf_name p = p"
      by (simp only: leaf_name_def rev_rev_ident)
    with False show ?thesis
      by (simp add: split_char_absent)
  next
    case True
    then obtain d n where dn: "p = d @ slash # n" "slash \<notin> set n"
      by (auto dest: split_list_last)
    from dn(2) have "\<forall>x\<in>set (rev n). x \<noteq> slash"
      by auto
    then have "takeWhile (\<lambda>c. c \<noteq> slash) (rev n @ slash # rev d) = rev n"
      by (subst takeWhile_append2) auto
    with dn(1) have "leaf_name p = n"
      by (simp add: leaf_name_def)
    with dn show ?thesis
      by (simp add: split_char_last)
  qed
  finally show ?thesis .
qed

lemma leaf_name_split_Suc:
  "split_char slash p ! (length (split_char slash p) - Suc 0) = leaf_name p"
  using leaf_name_split [of p] by simp

lemma word_hits_count:
  "word_hits t ws s0 = s0 + 3 * int (length (filter (\<lambda>w. length w > 2 \<and> includes_str t w) ws))"
  unfolding word_hits_def by (induction ws arbitrary: s0) auto

lemma collect_tags_candidates:
  "collect_tags lc (lc text) folders tags = tags @ keyword_candidates lc folders text"
proof (induction folders arbitrary: tags)
  case Nil
  show ?case by (simp add: keyword_candidates_def)
next
  case (Cons p folders)
  show ?case
    by (simp add: Cons.IH Let_def leaf_name_split_Suc word_hits_count keyword_candidates_def keyword_score_def)
qed

lemma insert_by_insort:
  "insert_by (\<lambda>a b. score b - score a) x ys = insort_key (\<lambda>t. - score t) x ys"
  by (induction ys) auto

lemma js_sort_sort_key:
  "js_sort (\<lambda>a b. score b - score a) xs = sort_key (\<lambda>t. - score t) xs"
  unfolding js_sort_def sort_key_def
  by (induction xs) (simp_all add: insert_by_insort)

lemma folderNames_leaf:
  "map (\<lambda>p. split_char slash p ! (length (split_char slash p) - 1))
     (filter (\<lambda>p. p \<noteq> [] \<and> p \<noteq> js ''/'') folders) = folder_names folders"
  by (simp add: leaf_name_split_Suc folder_names_def)

lemma suggestTagsKeyword_no_folders:
  assumes "folder_names folders = []"
  shows "suggestTagsKeyword lc folders input = []"
proof -
  from assms have "filter (\<lambda>p. p \<noteq> [] \<and> p \<noteq> js ''/'') folders = []"
    by (simp add: folder_names_def)
  then have "keyword_candidates lc folders input = []"
    by (simp add: keyword_candidates_def)
  then show ?thesis
    using collect_tags_candidates [of lc input folders "[]"]
    by (simp add: suggestTagsKeyword_def Let_def js_sort_def)
qed

lemma free_path_found:
  "\<lbrakk>\<not> occupied (candidate k); \<forall>j. c \<le> j \<and> j < k \<longrightarrow> occupied (candidate j); c \<le> k; occupied p\<rbrakk>
   \<Longrightarrow> free_path occupied candidate p c = Some (candidate k)"
proof (induction "k - c" arbitrary: c p)
  case 0
  then have "c = k" by simp
  with 0 show ?case
    by (subst free_path.simps, subst free_path.simps) simp
next
  case (Suc d)
  then have ck: "c < k" and oc: "occupied (candidate c)" by auto
  from Suc have "free_path occupied candidate (candidate c) (c + 1) = Some (candidate k)"
    by (intro Suc.hyps(1)) auto
  with Suc.prems show ?case
    by (subst free_path.simps) simp
qed

lemma free_path_free: "\<not> occupied p \<Longrightarrow> free_path occupied candidate p c = Some p"
  by (subst free_path.simps) simp

lemma free_candidate_exists:
  assumes "inj candidate"
  shows "\<exists>k\<ge>(c::nat). candidate k \<notin> set v"
proof (rule ccontr)
  assume "\<not> (\<exists>k\<ge>c. candidate k \<notin> set v)"
  then have "candidate ` {c..} \<subseteq> set v" by auto
  then have "finite (candidate ` {c..})" by (rule finite_subset) simp
  with assms have "finite {c..}"
    by (metis finite_imageD inj_on_subset subset_UNIV)
  then show False
    by (simp add: infinite_Ici)
qed

lemma free_path_least:
  assumes "inj candidate"
  shows "\<exists>p. free_path (\<lambda>q. q \<in> set v) candidate filePath 1 = Some p \<and> p \<notin> set v
           \<and> (filePath \<notin> set v \<longrightarrow> p = filePath)
           \<and> (filePath \<in> set v \<longrightarrow>
                 (\<exists>k\<ge>1. p = candidate k \<and> (\<forall>j. 1 \<le> j \<and> j < k \<longrightarrow> candidate j \<in> set v)))"
proof (cases "filePath \<in> set v")
  case False
  then show ?thesis by (simp add: free_path_free)
next
  case True
  from free_candidate_exists [OF assms, of 1 v]
  have ex: "\<exists>k. 1 \<le> k \<and> candidate k \<notin> set v" by blast
  define k where "k = (LEAST k. 1 \<le> k \<and> candidate k \<notin> set v)"
  from ex have k: "1 \<le> k" "candidate k \<notin> set v"
    unfolding k_def by (metis (mono_tags, lifting) LeastI_ex)+
  have least: "candidate j \<in> set v" if "1 \<le> j" "j < k" for j
    using that not_less_Least [of j "\<lambda>k. 1 \<le> k \<and> candidate k \<notin> set v"]
    unfolding k_def by blast
  have "free_path (\<lambda>q. q \<in> set v) candidate filePath 1 = Some (candidate k)"
    by (rule free_path_found) (use k least True in auto)
  with k least True show ?thesis by auto
qed

lemma digit_value: "d < 10 \<Longrightarrow> unat (digit d - 0x30) = d"
proof -
  assume "d < 10"
  have "digit d - 0x30 = (of_nat d :: 16 word)"
    by (simp add: digit_def)
  moreover from \<open>d < 10\<close> have "unat (of_nat d :: 16 word) = d"
    by (simp add: unat_of_nat)
  ultimately show ?thesis by simp
qed

lemma decimal_value:
  "foldl (\<lambda>a c. 10 * a + unat (c - 0x30)) 0 (decimal n) = n"
proof (induction n rule: decimal.induct)
  case (1 n)
  show ?case
  proof (cases "n < 10")
    case True
    then show ?thesis
      by (subst decimal.simps) (simp add: digit_value)
  next
    case False
    with 1 have "foldl (\<lambda>a c. 10 * a + unat (c - 0x30)) 0 (decimal (n div 10)) = n div 10"
      by simp
    with False show ?thesis
      by (subst decimal.simps) (simp add: digit_value)
  qed
qed

lemma decimal_inj: "decimal j = decimal k \<Longrightarrow> j = k"
  by (metis decimal_value)

lemma number_to_string_nat: "number_to_string (int k) = decimal k"
  by (simp add: number_to_string_def)

lemma numbering_distinct_id: "normalizePath h = (\<lambda>p. p) \<Longrightarrow> numbering_distinct h"
  by (auto simp: numbering_distinct_def dest: decimal_inj)

lemma note_candidate_inj: "numbering_distinct h \<Longrightarrow> inj (note_candidate h inboxFolder safeTitle)"
proof (rule injI)
  fix j k
  assume nd: "numbering_distinct h"
    and eq: "note_candidate h inboxFolder safeTitle j = note_candidate h inboxFolder safeTitle k"
  let ?pre = "inboxFolder @ js ''/'' @ strip_ellipsis safeTitle @ js ''-''"
  from eq have "normalizePath h (?pre @ decimal j @ js ''.md'') = normalizePath h (?pre @ decimal k @ js ''.md'')"
    by (simp add: note_candidate_def Let_def number_to_string_nat)
  with nd show "j = k"
    unfolding numbering_distinct_def by blast
qed

lemma image_candidate_inj:
  "numbering_distinct h \<Longrightarrow> inj (image_candidate h attachmentFolder safeFilename)"
proof (rule injI)
  fix j k
  assume nd: "numbering_distinct h"
    and eq: "image_candidate h attachmentFolder safeFilename j
             = image_candidate h attachmentFolder safeFilename k"
  obtain b e where be: "extension_match safeFilename = (b, e)"
    by (cases "extension_match safeFilename")
  let ?pre = "attachmentFolder @ js ''/'' @ b @ js ''-''"
  from eq be have "normalizePath h (?pre @ decimal j @ e) = normalizePath h (?pre @ decimal k @ e)"
    by (simp add: image_candidate_def number_to_string_nat)
  with nd show "j = k"
    unfolding numbering_distinct_def by blast
qed

lemma extension_match_parts:
  "extension_match s = (b, e) \<Longrightarrow>
     s = b @ e \<and> (e = [] \<or> (\<exists>r. e = dot # r \<and> r \<noteq> [] \<and> dot \<notin> set r))"
proof (induction s arbitrary: b e)
  case Nil
  then show ?case by simp
next
  case (Cons c cs)
  show ?case
  proof (cases "c = dot \<and> cs \<noteq> [] \<and> dot \<notin> set cs")
    case True
    with Cons.prems show ?thesis by auto
  next
    case False
    obtain b' e' where r: "extension_match cs = (b', e')"
      by (cases "extension_match cs")
    with False Cons.prems have "b = c # b'" "e = e'" by auto
    with Cons.IH [OF r] show ?thesis by auto
  qed
qed

lemma extension_match_none:
  "extension_match s = (b, []) \<Longrightarrow> dot \<notin> set s \<or> last s = dot"
proof (induction s arbitrary: b)
  case Nil
  then show ?case by simp
next
  case (Cons c cs)
  show ?case
  proof (cases "c = dot \<and> cs \<noteq> [] \<and> dot \<notin> set cs")
    case True
    with Cons.prems show ?thesis by auto
  next
    case False
    obtain b' e' where r: "extension_match cs = (b', e')"
      by (cases "extension_match cs")
    with False Cons.prems have e': "e' = []" by auto
    with r Cons.IH have "dot \<notin> set cs \<or> last cs = dot" by blast
    with False show ?thesis by (cases "cs = []") auto
  qed
qed

lemma example_host_numbering: "numbering_distinct example_host"
  by (rule numbering_distinct_id) (simp add: example_host_def)

lemma image_path_total:
  assumes "numbering_distinct h"
  shows "\<exists>p. image_path h v attachmentFolder filename = Some p \<and> p \<notin> set v
           \<and> (normalizePath h (attachmentFolder @ js ''/'' @ sanitize filename) \<notin> set v
                \<longrightarrow> p = normalizePath h (attachmentFolder @ js ''/'' @ sanitize filename))"
proof -
  let ?s = "sanitize filename"
  let ?fp = "normalizePath h (attachmentFolder @ js ''/'' @ ?s)"
  have ip: "image_path h v attachmentFolder filename
            = free_path (\<lambda>q. q \<in> set v) (image_candidate h attachmentFolder ?s) ?fp 1"
    by (simp add: image_path_def Let_def)
  from free_path_least [OF image_candidate_inj [OF assms], of v attachmentFolder ?s ?fp]
  show ?thesis unfolding ip by blast
qed

lemma match_image_sound:
  assumes "match_image s = Some (a, u, r)"
  shows "s = image_text a u @ r \<and> rbracket \<notin> set a \<and> rparen \<notin> set u \<and> u \<noteq> []"
proof -
  from assms obtain t q t2 p where
    s: "s = bang # lbracket # t" and
    d1: "dropWhile (\<lambda>c. c \<noteq> rbracket) t = q # lparen # t2" and
    a: "a = takeWhile (\<lambda>c. c \<noteq> rbracket) t" and
    d2: "dropWhile (\<lambda>c. c \<noteq> rparen) t2 = p # r" and
    u: "u = takeWhile (\<lambda>c. c \<noteq> rparen) t2" "u \<noteq> []"
    by (auto simp: match_image_def Let_def split: list.splits if_splits)
  from d1 have q: "q = rbracket"
    using hd_dropWhile [of "\<lambda>c. c \<noteq> rbracket" t] by auto
  from d2 have p: "p = rparen"
    using hd_dropWhile [of "\<lambda>c. c \<noteq> rparen" t2] by auto
  have "t = a @ q # lparen # t2"
    using takeWhile_dropWhile_id [of "\<lambda>c. c \<noteq> rbracket" t] a d1 by simp
  moreover have "t2 = u @ p # r"
    using takeWhile_dropWhile_id [of "\<lambda>c. c \<noteq> rparen" t2] u d2 by simp
  ultimately have "s = image_text a u @ r"
    using s p q by (simp add: image_text_def)
  moreover have "rbracket \<notin> set a"
    unfolding a by (auto dest: set_takeWhileD)
  moreover have "rparen \<notin> set u"
    unfolding u by (auto dest: set_takeWhileD)
  ultimately show ?thesis using u(2) by simp
qed

lemma match_image_complete:
  assumes "rbracket \<notin> set a" "rparen \<notin> set u" "u \<noteq> []"
  shows "match_image (image_text a u @ r) = Some (a, u, r)"
proof -
  from assms(1) have a1: "takeWhile (\<lambda>c. c \<noteq> rbracket) (a @ rbracket # lparen # u @ rparen # r) = a"
    by (subst takeWhile_append2) auto
  from assms(1) have a2: "dropWhile (\<lambda>c. c \<noteq> rbracket) (a @ rbracket # lparen # u @ rparen # r)
      = rbracket # lparen # u @ rparen # r"
    by (subst dropWhile_append2) auto
  from assms(2) have u1: "takeWhile (\<lambda>c. c \<noteq> rparen) (u @ rparen # r) = u"
    by (subst takeWhile_append2) auto
  from assms(2) have u2: "dropWhile (\<lambda>c. c \<noteq> rparen) (u @ rparen # r) = rparen # r"
    by (subst dropWhile_append2) auto
  show ?thesis
    using assms(3) by (simp add: match_image_def image_text_def a1 a2 u1 u2)
qed

lemma image_tokens_text: "concat (map (rewrite_token (\<lambda>u. None)) (image_tokens s)) = s"
proof (induction s rule: image_tokens.induct)
  case 1
  show ?case by simp
next
  case (2 c cs)
  show ?case
  proof (cases "match_image (c # cs)")
    case None
    with 2 show ?thesis by simp
  next
    case (Some m)
    obtain a u r where m: "m = (a, u, r)" by (cases m)
    with Some 2 have ih: "concat (map (rewrite_token (\<lambda>u. None)) (image_tokens r)) = r"
      by simp
    from Some m have tk: "image_tokens (c # cs) = Inr (a, u) # image_tokens r"
      by simp
    from Some m have "c # cs = image_text a u @ r"
      using match_image_sound by blast
    then show ?thesis
      unfolding tk using ih by simp
  qed
qed

lemma get_substitution_plain: "dollar_pattern_free t \<Longrightarrow> get_substitution m b a t = t"
  by (induction m b a t rule: get_substitution.induct) auto

lemma dollar_pattern_free_append:
  "dollar_pattern_free (xs @ ys) \<longleftrightarrow>
     dollar_pattern_free xs \<and> dollar_pattern_free ys
     \<and> (xs = [] \<or> ys = [] \<or> last xs \<noteq> dollar
          \<or> (hd ys \<noteq> dollar \<and> hd ys \<noteq> ampersand \<and> hd ys \<noteq> backtick \<and> hd ys \<noteq> apostrophe))"
proof (induction xs rule: dollar_pattern_free.induct)
  case 1
  show ?case by simp
next
  case (2 c)
  show ?case by (cases ys) auto
next
  case (3 c d t)
  then show ?case by auto
qed

lemma dollar_free_pattern_free: "dollar \<notin> set t \<Longrightarrow> dollar_pattern_free t"
  by (induction t rule: dollar_pattern_free.induct) auto

lemma replace_first_at:
  assumes "find_first pat (b @ pat @ a) = Some (b, a)" "dollar_pattern_free r"
  shows "replace_first (b @ pat @ a) pat r = b @ r @ a"
  using assms by (simp add: replace_first_def get_substitution_plain)

lemma absolute_replacements_append:
  "absolute_replacements R nb ms (acc @ acc') = acc @ absolute_replacements R nb ms acc'"
  by (induction R nb ms acc' rule: absolute_replacements.induct) (auto split: option.splits)

lemma startsWith_prefix: "startsWith s p \<longleftrightarrow> prefix p s"
  by (auto simp: startsWith_iff prefix_def)

lemma endsWith_suffix: "endsWith s p \<longleftrightarrow> suffix p s"
proof
  assume "endsWith s p"
  then have "s = take (length s - length p) s @ p"
    unfolding endsWith_def by (metis append_take_drop_id)
  then show "suffix p s" unfolding suffix_def by blast
next
  assume "suffix p s"
  then obtain zs where "s = zs @ p" unfolding suffix_def by blast
  then show "endsWith s p" by (simp add: endsWith_def)
qed

lemma strip_ellipsis_iff:
  "strip_ellipsis s = b \<longleftrightarrow> s = b @ js ''...'' \<or> \<not> suffix (js ''...'') s \<and> b = s"
proof (cases "suffix (js ''...'') s")
  case True
  then obtain zs where zs: "s = zs @ js ''...''"
    unfolding suffix_def by blast
  have "length (js ''...'') = 3" by (simp add: js_def)
  with zs True have "strip_ellipsis s = zs"
    by (simp add: strip_ellipsis_def endsWith_suffix)
  with zs True show ?thesis by auto
next
  case False
  then have "strip_ellipsis s = s"
    by (simp add: strip_ellipsis_def endsWith_suffix)
  moreover from False have "s \<noteq> b @ js ''...''"
    unfolding suffix_def by blast
  ultimately show ?thesis using False by auto
qed

lemma absolute_replacements_step:
  assumes "\<And>u. conv u = (if prefix (js ''http://'') u \<or> prefix (js ''https://'') u
                            \<or> prefix (js ''data:'') u \<or> prefix (js ''blob:'') u
                          then None else R u nb)"
  shows "absolute_replacements R nb ((a, u) # ms) []
   = (case conv u of
        None \<Rightarrow> absolute_replacements R nb ms []
      | Some ab \<Rightarrow> (image_text a u, image_text a ab) # absolute_replacements R nb ms [])"
proof -
  have app: "absolute_replacements R nb ms [x] = x # absolute_replacements R nb ms []" for x
    using absolute_replacements_append [of R nb ms "[x]" "[]"] by simp
  show ?thesis
    unfolding assms
    by (simp add: startsWith_prefix app split: option.split)
qed

lemma resolution_normalized:
  "resolution R base u
   = (if prefix (js ''http://'') u \<or> prefix (js ''https://'') u
         \<or> prefix (js ''data:'') u \<or> prefix (js ''blob:'') u
      then None
      else R u (if \<not> endsWith base (js ''/'') then base @ js ''/'' else base))"
proof -
  have "(if suffix (js ''/'') base then base else base @ js ''/'')
        = (if \<not> endsWith base (js ''/'') then base @ js ''/'' else base)"
    by (simp add: endsWith_suffix)
  then show ?thesis
    unfolding resolution_def by (simp only:)
qed

lemma dollar_pattern_free_Cons:
  "c \<noteq> dollar \<Longrightarrow> dollar_pattern_free (c # t) = dollar_pattern_free t"
  by (cases t) simp_all

lemma image_text_dollar:
  "dollar_pattern_free (image_text a u) \<longleftrightarrow> dollar_pattern_free a \<and> dollar_pattern_free u"
proof -
  have ne: "bang \<noteq> dollar" "lbracket \<noteq> dollar" "lparen \<noteq> dollar"
    "rbracket \<noteq> dollar" "rbracket \<noteq> ampersand" "rbracket \<noteq> backtick" "rbracket \<noteq> apostrophe"
    "rparen \<noteq> dollar" "rparen \<noteq> ampersand" "rparen \<noteq> backtick" "rparen \<noteq> apostrophe"
    by (simp_all add: dollar_def ampersand_def backtick_def apostrophe_def
        bang_def lbracket_def rbracket_def lparen_def rparen_def)
  have "dollar_pattern_free (image_text a u)
        \<longleftrightarrow> dollar_pattern_free (a @ rbracket # lparen # u @ [rparen])"
    by (simp add: image_text_def dollar_pattern_free_Cons ne)
  also have "\<dots> \<longleftrightarrow> dollar_pattern_free a \<and> dollar_pattern_free (rbracket # lparen # u @ [rparen])"
    using dollar_pattern_free_append [of a "rbracket # lparen # u @ [rparen]"] ne by simp
  also have "dollar_pattern_free (rbracket # lparen # u @ [rparen])
             \<longleftrightarrow> dollar_pattern_free (u @ [rparen])"
    by (simp add: dollar_pattern_free_Cons ne)
  also have "\<dots> \<longleftrightarrow> dollar_pattern_free u"
    using dollar_pattern_free_append [of u "[rparen]"] ne by simp
  finally show ?thesis .
qed

lemma apply_replacements_tokens:
  assumes conv: "\<And>u. conv u = (if prefix (js ''http://'') u \<or> prefix (js ''https://'') u
                            \<or> prefix (js ''data:'') u \<or> prefix (js ''blob:'') u
                          then None else R u nb)"
    and "first_occurrence_ok conv rewritten ts"
  shows "apply_replacements (absolute_replacements R nb [m. Inr m \<leftarrow> ts] [])
           (rewritten @ concat (map (rewrite_token (\<lambda>u. None)) ts))
         = rewritten @ concat (map (rewrite_token conv) ts)"
  using assms(2)
proof (induction ts arbitrary: rewritten)
  case Nil
  show ?case by (simp add: apply_replacements_def)
next
  case (Cons t ts)
  note step = absolute_replacements_step [of conv R nb, OF conv]
  show ?case
  proof (cases t)
    case (Inl c)
    with Cons.prems have "first_occurrence_ok conv (rewritten @ [c]) ts" by simp
    from Cons.IH [OF this] Inl show ?thesis by simp
  next
    case (Inr m)
    obtain a u where m: "m = (a, u)" by (cases m)
    show ?thesis
    proof (cases "conv u")
      case None
      with Cons.prems Inr m
      have "first_occurrence_ok conv (rewritten @ image_text a u) ts" by simp
      from Cons.IH [OF this] Inr m None show ?thesis
        by (simp add: step del: absolute_replacements.simps)
    next
      case (Some ab)
      let ?rest = "concat (map (rewrite_token (\<lambda>u. None)) ts)"
      from Cons.prems Inr m Some have
        ff: "find_first (image_text a u) (rewritten @ image_text a u @ ?rest) = Some (rewritten, ?rest)" and
        d: "dollar_pattern_free a" "dollar_pattern_free ab" and
        ok: "first_occurrence_ok conv (rewritten @ image_text a ab) ts"
        by simp_all
      have rf: "replace_first (rewritten @ image_text a u @ ?rest) (image_text a u) (image_text a ab)
                = rewritten @ image_text a ab @ ?rest"
        by (rule replace_first_at [OF ff]) (simp add: image_text_dollar d)
      have "apply_replacements (absolute_replacements R nb [m. Inr m \<leftarrow> t # ts] [])
              (rewritten @ concat (map (rewrite_token (\<lambda>u. None)) (t # ts)))
            = apply_replacements (absolute_replacements R nb [m. Inr m \<leftarrow> ts] [])
                (replace_first (rewritten @ image_text a u @ ?rest) (image_text a u) (image_text a ab))"
        using Inr m Some
        by (simp add: step apply_replacements_def del: absolute_replacements.simps)
      also have "\<dots> = (rewritten @ image_text a ab) @ concat (map (rewrite_token conv) ts)"
        unfolding rf using Cons.IH [OF ok] by simp
      finally show ?thesis using Inr m Some by simp
    qed
  qed
qed

lemma absolute_replacements_none:
  assumes conv: "\<And>u. conv u = (if prefix (js ''http://'') u \<or> prefix (js ''https://'') u
                            \<or> prefix (js ''data:'') u \<or> prefix (js ''blob:'') u
                          then None else R u nb)"
    and "\<forall>(a, u) \<in> set ms. conv u = None"
  shows "absolute_replacements R nb ms [] = []"
  using assms(2)
proof (induction ms)
  case Nil
  show ?case by simp
next
  case (Cons m ms)
  obtain a u where "m = (a, u)" by (cases m)
  with Cons show ?case
    by (simp add: absolute_replacements_step [of conv R nb, OF conv]
        del: absolute_replacements.simps)
qed

lemma convert_no_replacement:
  assumes "\<forall>(a, u) \<in> set (scan_images md). resolution R base u = None"
  shows "convertRelativeImageUrls R md base = md"
proof -
  let ?nb = "if \<not> endsWith base (js ''/'') then base @ js ''/'' else base"
  have "absolute_replacements R ?nb (scan_images md) [] = []"
    by (rule absolute_replacements_none [of "resolution R base" R ?nb, OF resolution_normalized assms])
  then show ?thesis
    unfolding convertRelativeImageUrls_def Let_def by (simp add: apply_replacements_def)
qed

lemma convert_spec:
  assumes "first_occurrence_ok (resolution R base) [] (image_tokens md)"
  shows "convertRelativeImageUrls R md base = absolutize_spec R md base"
proof -
  let ?nb = "if \<not> endsWith base (js ''/'') then base @ js ''/'' else base"
  from apply_replacements_tokens [of "resolution R base" R ?nb "[]" "image_tokens md",
      OF resolution_normalized assms]
  have "apply_replacements (absolute_replacements R ?nb (scan_images md) []) md
        = absolutize_spec R md base"
    by (simp add: scan_images_def absolutize_spec_def image_tokens_text)
  then show ?thesis
    unfolding convertRelativeImageUrls_def Let_def .
qed

lemma image_tokens_wellformed:
  "Inr (a, u) \<in> set (image_tokens s) \<Longrightarrow> rbracket \<notin> set a \<and> rparen \<notin> set u \<and> u \<noteq> []"
proof (induction s rule: image_tokens.induct)
  case 1
  then show ?case by simp
next
  case (2 c cs)
  show ?case
  proof (cases "match_image (c # cs)")
    case None
    with 2 show ?thesis by simp
  next
    case (Some m)
    obtain a' u' r where m: "m = (a', u', r)" by (cases m)
    from Some m have tk: "image_tokens (c # cs) = Inr (a', u') # image_tokens r" by simp
    show ?thesis
    proof (cases "(a, u) = (a', u')")
      case True
      with Some m match_image_sound [of "c # cs" a' u' r] show ?thesis by simp
    next
      case False
      from "2.prems" have "Inr (a, u) \<in> set (Inr (a', u') # image_tokens r)"
        by (simp only: tk)
      with False have "Inr (a, u) \<in> set (image_tokens r)" by auto
      with "2.IH"(2) [OF _ refl refl, of a' u' r] Some m show ?thesis by simp
    qed
  qed
qed

lemma find_first_here: "pat \<noteq> [] \<Longrightarrow> find_first pat (pat @ r) = Some ([], r)"
  by (cases pat) (simp_all add: startsWith_def)

lemma image_text_nonempty: "image_text a u \<noteq> []"
  by (simp add: image_text_def)

lemma first_match_is_first_occurrence:
  assumes "image_tokens s = map Inl g @ Inr (a, u) # ts"
  shows "find_first (image_text a u) s = Some (g, concat (map (rewrite_token (\<lambda>u. None)) ts))"
proof -
  have wf: "rbracket \<notin> set a \<and> rparen \<notin> set u \<and> u \<noteq> []"
    by (rule image_tokens_wellformed [of a u s]) (simp add: assms)
  from assms show ?thesis
  proof (induction g arbitrary: s)
    case Nil
    then obtain c cs where s: "s = c # cs" by (cases s) auto
    with Nil obtain r where m: "match_image (c # cs) = Some (a, u, r)" and ts: "ts = image_tokens r"
      by (auto split: option.splits)
    from m s have "s = image_text a u @ r"
      using match_image_sound by blast
    with ts show ?case
      by (simp add: find_first_here image_text_nonempty image_tokens_text)
  next
    case (Cons c' g)
    then obtain c cs where s: "s = c # cs" by (cases s) auto
    with Cons.prems have m: "match_image (c # cs) = None" and c: "c = c'"
      and tk: "image_tokens cs = map Inl g @ Inr (a, u) # ts"
      by (auto split: option.splits)
    have ns: "\<not> startsWith (c # cs) (image_text a u)"
    proof
      assume "startsWith (c # cs) (image_text a u)"
      then obtain r where "c # cs = image_text a u @ r"
        unfolding startsWith_iff by blast
      with match_image_complete [of a u r] wf m show False by simp
    qed
    from Cons.IH [OF tk] ns s c show ?case by simp
  qed
qed

lemma first_occurrence_ok_text:
  "first_occurrence_ok conv acc (map Inl g @ ts) = first_occurrence_ok conv (acc @ g) ts"
  by (induction g arbitrary: acc) simp_all

lemma first_occurrence_ok_plain: "first_occurrence_ok conv acc (map Inl r)"
  by (induction r arbitrary: acc) simp_all

lemma no_image_tokens: "[m. Inr m \<leftarrow> ts] = [] \<Longrightarrow> \<exists>r. ts = map Inl r"
proof (induction ts)
  case Nil
  show ?case by simp
next
  case (Cons t ts)
  then obtain c where "t = Inl c" by (cases t) auto
  moreover from Cons obtain r where "ts = map Inl r" by (cases t) auto
  ultimately have "t # ts = map Inl (c # r)" by simp
  then show ?case by (rule exI [of _ "c # r"])
qed

lemma single_image_tokens:
  "[m. Inr m \<leftarrow> ts] = [x] \<Longrightarrow> \<exists>g r. ts = map Inl g @ Inr x # map Inl r"
proof (induction ts)
  case Nil
  then show ?case by simp
next
  case (Cons t ts)
  show ?case
  proof (cases t)
    case (Inl c)
    with Cons obtain g r where "ts = map Inl g @ Inr x # map Inl r" by auto
    with Inl have "t # ts = map Inl (c # g) @ Inr x # map Inl r" by simp
    then show ?thesis by blast
  next
    case (Inr m)
    with Cons.prems have mx: "m = x" and e: "[m. Inr m \<leftarrow> ts] = []" by simp_all
    from no_image_tokens [OF e] obtain r where "ts = map Inl r" by blast
    with Inr mx have "t # ts = map Inl [] @ Inr x # map Inl r" by simp
    then show ?thesis by blast
  qed
qed

lemma plain_tokens_text: "concat (map (rewrite_token conv) (map Inl r)) = r"
  by (induction r) simp_all

lemma plain_tokens_text_comp: "concat (map (rewrite_token conv \<circ> Inl) r) = r"
  by (induction r) simp_all

lemma single_image_text:
  "concat (map (rewrite_token conv) (map Inl g @ Inr (a, u) # map Inl r))
   = g @ rewrite_token conv (Inr (a, u)) @ r"
  using plain_tokens_text [of conv g] plain_tokens_text [of conv r]
  by (simp del: map_map rewrite_token.simps)

lemma convert_single_image:
  assumes one: "scan_images md = [(alt, url)]"
    and res: "resolution R base url = Some ab"
    and d: "dollar_pattern_free alt" "dollar_pattern_free ab"
  shows "\<exists>g r. md = g @ image_text alt url @ r
           \<and> convertRelativeImageUrls R md base = g @ image_text alt ab @ r"
proof -
  from one have "[m. Inr m \<leftarrow> image_tokens md] = [(alt, url)]"
    by (simp only: scan_images_def)
  from single_image_tokens [OF this]
  obtain g r where tk: "image_tokens md = map Inl g @ Inr (alt, url) # map Inl r"
    by blast
  from image_tokens_text [of md] have md: "md = g @ image_text alt url @ r"
    unfolding tk single_image_text by simp
  from first_match_is_first_occurrence [OF tk]
  have ff: "find_first (image_text alt url) (g @ image_text alt url @ r) = Some (g, r)"
    unfolding md [symmetric] plain_tokens_text .
  have "first_occurrence_ok (resolution R base) [] (image_tokens md)"
    unfolding tk first_occurrence_ok_text
    using res d ff by (simp add: plain_tokens_text_comp first_occurrence_ok_plain)
  then have "convertRelativeImageUrls R md base = absolutize_spec R md base"
    by (rule convert_spec)
  also have "\<dots> = g @ image_text alt ab @ r"
    unfolding absolutize_spec_def tk single_image_text using res by simp
  finally show ?thesis using md by blast
qed

lemma downloadImage_total:
  assumes "numbering_distinct h"
  shows "\<exists>r v'. downloadImage h v imageUrl filename notePath = Some (r, v')"
proof -
  have ip: "image_path h v1 f filename \<noteq> None" for v1 f
    using image_path_total [OF assms, of v1 f filename] by auto
  show ?thesis
    unfolding downloadImage_def Let_def
    by (auto split: option.splits simp: ip)
qed

lemma download_replacements_total:
  assumes "numbering_distinct h"
  shows "\<exists>rs v'. download_replacements h P notePath pre ms v acc = Some (rs, v')"
proof (induction ms arbitrary: v acc)
  case Nil
  show ?case by simp
next
  case (Cons m ms)
  obtain a u where m: "m = (a, u)" by (cases m)
  show ?case
  proof (cases "\<not> startsWith u (js ''http://'') \<and> \<not> startsWith u (js ''https://'')")
    case True
    with m Cons.IH [of v acc] show ?thesis by simp
  next
    case False
    show ?thesis
    proof (cases "P u")
      case None
      with False m Cons.IH [of v acc] show ?thesis by simp
    next
      case (Some pathname)
      define fn where "fn = (let parts = split_char slash pathname;
                  lastPart = parts ! (length parts - 1);
                  filename = (if lastPart \<noteq> [] then lastPart else js ''image.jpg'');
                  filename' = (if \<not> includes_str filename (js ''.'') then filename @ js ''.jpg''
                               else filename)
              in pre @ js ''_'' @ filename')"
      from downloadImage_total [OF assms, of v u fn notePath]
      obtain r v' where d: "downloadImage h v u fn notePath = Some (r, v')" by blast
      from Cons.IH [of v' "acc @ [(image_text a u, image_text a r)]"]
      obtain rs v'' where
        "download_replacements h P notePath pre ms v' (acc @ [(image_text a u, image_text a r)])
         = Some (rs, v'')" by blast
      with False m Some d show ?thesis
        by (auto simp: fn_def Let_def)
    qed
  qed
qed

lemma downloadImagesInContent_total:
  assumes "numbering_distinct h"
  shows "\<exists>c v'. downloadImagesInContent h P v md base notePath pre = Some (c, v')"
  using download_replacements_total [OF assms, of P notePath pre "scan_images md" v "[]"]
  by (auto simp: downloadImagesInContent_def)

lemma digit_inj: "a < 10 \<Longrightarrow> b < 10 \<Longrightarrow> digit a = digit b \<Longrightarrow> a = b"
  by (metis digit_value)

lemma two_digits_inj:
  assumes "a < 100" "b < 100" "two_digits a = two_digits b"
  shows "a = b"
proof -
  from assms(1,2) have "a div 10 < 10" "b div 10 < 10"
    by simp_all
  with assms(3) have "a div 10 = b div 10"
    using digit_inj [of "a div 10" "b div 10"] by (simp add: two_digits_def)
  moreover from assms(3) have "a mod 10 = b mod 10"
    using digit_inj [of "a mod 10" "b mod 10"] by (simp add: two_digits_def)
  ultimately show ?thesis by (metis div_mult_mod_eq)
qed

lemma decimal_places:
  "x = 10 * y + p \<Longrightarrow> y = 10 * z + q \<Longrightarrow> z = 10 * w + r
   \<Longrightarrow> (x::nat) = 1000 * w + 100 * r + 10 * q + p"
  by simp

lemma four_digit_value:
  "(n::nat) = 1000 * (n div 1000) + 100 * (n div 100 mod 10) + 10 * (n div 10 mod 10) + n mod 10"
proof (rule decimal_places)
  show "n = 10 * (n div 10) + n mod 10"
    by simp
  show "n div 10 = 10 * (n div 100) + n div 10 mod 10"
    using div_mult_mod_eq [of "n div 10" 10] by (simp only: div_10_10 mult.commute)
  show "n div 100 = 10 * (n div 1000) + n div 100 mod 10"
    using div_mult_mod_eq [of "n div 100" 10] div_mult2_eq [of n 100 10]
    by (simp add: mult.commute)
qed

lemma four_digits_inj:
  assumes "a < 10000" "b < 10000" "four_digits a = four_digits b"
  shows "a = b"
proof -
  from assms(1,2) have "a div 1000 < 10" "b div 1000 < 10"
    by simp_all
  with assms(3) have 1: "a div 1000 = b div 1000"
    using digit_inj [of "a div 1000" "b div 1000"] by (simp add: four_digits_def)
  from assms(3) have 2: "a div 100 mod 10 = b div 100 mod 10"
    using digit_inj [of "a div 100 mod 10" "b div 100 mod 10"] by (simp add: four_digits_def)
  from assms(3) have 3: "a div 10 mod 10 = b div 10 mod 10"
    using digit_inj [of "a div 10 mod 10" "b div 10 mod 10"] by (simp add: four_digits_def)
  from assms(3) have 4: "a mod 10 = b mod 10"
    using digit_inj [of "a mod 10" "b mod 10"] by (simp add: four_digits_def)
  from 1 2 3 4 show ?thesis
    using four_digit_value [of a] four_digit_value [of b] by (simp only:)
qed

lemma stamp_inj:
  assumes "valid_clock d1" "valid_clock d2" "stamp d1 = stamp d2"
  shows "clock_minute d1 = clock_minute d2"
proof -
  from assms(3) have
    y: "four_digits (nat (getFullYear d1)) = four_digits (nat (getFullYear d2))" and
    m: "two_digits (getMonth d1 + 1) = two_digits (getMonth d2 + 1)" and
    d: "two_digits (getDate d1) = two_digits (getDate d2)" and
    h: "two_digits (getHours d1) = two_digits (getHours d2)" and
    mi: "two_digits (getMinutes d1) = two_digits (getMinutes d2)"
    by (simp_all add: stamp_def four_digits_def two_digits_def js_def)
  from assms(1,2) have "nat (getFullYear d1) < 10000" "nat (getFullYear d2) < 10000"
    unfolding valid_clock_def by linarith+
  then have "nat (getFullYear d1) = nat (getFullYear d2)"
    by (rule four_digits_inj [OF _ _ y])
  with assms(1,2) have "getFullYear d1 = getFullYear d2"
    unfolding valid_clock_def by linarith
  moreover from assms(1,2) have "getMonth d1 + 1 = getMonth d2 + 1"
    by (intro two_digits_inj [OF _ _ m]) (simp_all add: valid_clock_def)
  moreover from assms(1,2) have "getDate d1 = getDate d2"
    by (intro two_digits_inj [OF _ _ d]) (simp_all add: valid_clock_def)
  moreover from assms(1,2) have "getHours d1 = getHours d2"
    by (intro two_digits_inj [OF _ _ h]) (simp_all add: valid_clock_def)
  moreover from assms(1,2) have "getMinutes d1 = getMinutes d2"
    by (intro two_digits_inj [OF _ _ mi]) (simp_all add: valid_clock_def)
  ultimately show ?thesis by (simp add: clock_minute_def)
qed

lemma frontmatter_header:
  assumes "valid_clock now"
  shows "\<exists>rest. createYamlFrontmatter now tags src
     = js ''---'' @ [newline] @ js ''modified: '' @ stamp now @ [newline]
       @ js ''created: '' @ stamp now @ [newline] @ rest"
  unfolding createYamlFrontmatter_def timestamp_stamp [OF assms] Let_def
  by (simp split: option.split)

lemma note_path_total:
  assumes "numbering_distinct h"
  shows "\<exists>p. note_path h v inboxFolder title = Some p \<and> p \<notin> set v"
proof -
  have "note_path h v inboxFolder title
        = free_path (\<lambda>q. q \<in> set v) (note_candidate h inboxFolder (sanitize title))
            (normalizePath h (inboxFolder @ js ''/'' @ sanitize title @ js ''.md'')) 1"
    by (simp add: note_path_def Let_def)
  with free_path_least [OF note_candidate_inj [OF assms], of v inboxFolder "sanitize title"]
  show ?thesis by metis
qed

section \<open>Claims\<close>

text \<open>
  C2. \<open>isURL s\<close> holds exactly when the trimmed string contains no newline and
  matches \<open>^https?://.+\<close>: it starts with the lower-case scheme \<open>http\<close> or \<open>https\<close>,
  then \<open>://\<close>, then at least one code unit matched by \<open>.\<close> (any code unit that is not
  a line terminator). In particular a trimmed string that contains a newline is never
  a URL, whatever else it contains.
\<close>

theorem isURL_iff:
  "isURL s \<longleftrightarrow>
     newline \<notin> set (trim s)
     \<and> (\<exists>scheme c rest. (scheme = js ''http'' \<or> scheme = js ''https'')
          \<and> \<not> isLineTerminator c \<and> trim s = scheme @ js ''://'' @ c # rest)"
proof -
  have nl: "length (split_char newline (trim s)) > 1 \<longleftrightarrow> newline \<in> set (trim s)"
    by (rule split_char_single_iff)
  show ?thesis
  proof (cases "newline \<in> set (trim s)")
    case True
    with nl show ?thesis by (simp add: isURL_def Let_def)
  next
    case False
    with nl have "isURL s = test_http_url (trim s)"
      by (simp add: isURL_def Let_def)
    with False show ?thesis
      by (simp only: test_http_url_iff not_False_eq_True simp_thms)
  qed
qed

theorem isURL_iff_witness:
  "isURL (js ''  https://site.com/page '') \<and> \<not> isURL (js ''HTTP://site.com'')
   \<and> \<not> isURL (js ''http://'')"
proof -
  have t1: "trim (js ''  https://site.com/page '') = js ''https'' @ js ''://'' @ of_char CHR ''s'' # js ''ite.com/page''"
    by (simp add: trim_def js_def isWhiteSpace_def)
  have a: "isURL (js ''  https://site.com/page '')"
    unfolding isURL_iff [of "js ''  https://site.com/page ''"] t1
    by (auto simp: js_def newline_def isLineTerminator_def)
  have t2: "trim (js ''HTTP://site.com'') = js ''HTTP://site.com''"
    by (simp add: trim_def js_def isWhiteSpace_def)
  have b: "\<not> isURL (js ''HTTP://site.com'')"
    unfolding isURL_iff [of "js ''HTTP://site.com''"] t2
    by (auto simp: js_def)
  have t3: "trim (js ''http://'') = js ''http://''"
    by (simp add: trim_def js_def isWhiteSpace_def)
  have c: "\<not> isURL (js ''http://'')"
    unfolding isURL_iff [of "js ''http://''"] t3
    by (auto simp: js_def)
  from a b c show ?thesis by blast
qed

text \<open>
  C7. \<open>getAttachmentFolder\<close> applies four rules in order. Let \<open>dir\<close> be the note's
  containing directory (the part of the note path before its last \<open>/\<close>, empty when
  the path has none). (1) If the setting is unset (undefined, null or empty) or
  \<open>/\<close>, the result is \<open>dir\<close>, or \<open>.\<close> when \<open>dir\<close> is empty. (2) Else if the setting
  starts with \<open>/\<close> or does not contain \<open>./\<close>, it is returned verbatim. (3) Else if it
  starts with \<open>./\<close>, the prefix is removed and the rest is joined under \<open>dir\<close> (it is
  the rest alone when \<open>dir\<close> is empty). (4) Otherwise the setting is returned verbatim.
\<close>

theorem getAttachmentFolder_rules:
  assumes dir: "if slash \<in> set notePath
                then \<exists>name. notePath = dir @ slash # name \<and> slash \<notin> set name
                else dir = []"
  shows "getAttachmentFolder cfg notePath =
     (case cfg of
        None \<Rightarrow> (if dir = [] then js ''.'' else dir)
      | Some p \<Rightarrow>
          if p = [] \<or> p = js ''/'' then (if dir = [] then js ''.'' else dir)
          else if prefix (js ''/'') p \<or> \<not> (\<exists>a b. p = a @ js ''./'' @ b) then p
          else if prefix (js ''./'') p then
            (if dir = [] then drop 2 p else dir @ js ''/'' @ drop 2 p)
          else p)"
proof -
  have nd: "substring notePath 0 (lastIndexOf notePath slash) = dir"
  proof (cases "slash \<in> set notePath")
    case True
    with dir obtain name where n: "notePath = dir @ slash # name" "slash \<notin> set name"
      by auto
    then have "lastIndexOf notePath slash = int (length dir)"
      by (simp add: lastIndexOf_last)
    with n(1) show ?thesis
      using substring_prefix [of dir "slash # name"] by simp
  next
    case False
    with dir have "dir = []" by simp
    moreover from False have "lastIndexOf notePath slash = - 1"
      by (rule lastIndexOf_absent)
    ultimately show ?thesis by (simp add: substring_neg)
  qed
  have sw: "\<And>p q. startsWith p q \<longleftrightarrow> prefix q p"
    by (auto simp: startsWith_iff prefix_def)
  have sf: "\<And>p. substring_from p 2 = drop 2 p"
    using substring_from_drop [of _ 2] by simp
  show ?thesis
    by (simp add: getAttachmentFolder_def Let_def nd sw sf includes_str_iff split: option.split)
qed


theorem getAttachmentFolder_rules_witness:
  "getAttachmentFolder (Some (js ''./attachments'')) (js ''Inbox/note.md'') = js ''Inbox/attachments''"
proof -
  have h: "if slash \<in> set (js ''Inbox/note.md'')
           then \<exists>name. js ''Inbox/note.md'' = js ''Inbox'' @ slash # name \<and> slash \<notin> set name
           else js ''Inbox'' = []"
    by (simp add: js_def slash_def)
  have e: "\<exists>a b. js ''./attachments'' = a @ js ''./'' @ b"
  proof -
    have "js ''./attachments'' = [] @ js ''./'' @ js ''attachments''"
      by (simp add: js_def)
    then show ?thesis by blast
  qed
  have p: "prefix (js ''./'') (js ''./attachments'')" "\<not> prefix (js ''/'') (js ''./attachments'')"
    by (simp_all add: js_def)
  have n: "js ''./attachments'' \<noteq> []" "js ''./attachments'' \<noteq> js ''/''" "js ''Inbox'' \<noteq> []"
    by (simp_all add: js_def)
  have d: "drop 2 (js ''./attachments'') = js ''attachments''"
    by (simp add: js_def)
  have c: "js ''Inbox'' @ js ''/'' @ js ''attachments'' = js ''Inbox/attachments''"
    by (simp add: js_def)
  from getAttachmentFolder_rules [OF h, of "Some (js ''./attachments'')"] e p n d c
  show ?thesis by simp
qed

text \<open>
  C6 as stated fails: with 49 letters, a space and a letter the stripped line has 51
  code units, and the title is the 49 letters followed by \<open>...\<close>, not the first 50
  code units followed by \<open>...\<close>.
\<close>

theorem generateTitle_counterexample:
  "length (title_line (js ''aaaaaaaaaaaaaaaaaaaaaaaaaaaaaaaaaaaaaaaaaaaaaaaaa b'')) > 50
   \<and> generateTitle (js ''aaaaaaaaaaaaaaaaaaaaaaaaaaaaaaaaaaaaaaaaaaaaaaaaa b'')
       \<noteq> take 50 (title_line (js ''aaaaaaaaaaaaaaaaaaaaaaaaaaaaaaaaaaaaaaaaaaaaaaaaa b'')) @ js ''...''"
  by code_simp

text \<open>
  C6, amended. \<open>generateTitle\<close> works on the first line of the trimmed text with its
  leading \<open>#\<close> markers and surrounding white space removed. If that line is longer
  than 50 code units, the title is its first 50 code units with trailing white space
  removed, followed by \<open>...\<close> (so exactly the first 50 code units and \<open>...\<close> when the
  50th is not white space); if it has at most 50 it is returned unchanged; if it is
  empty the title is \<open>Untitled Note\<close>.
\<close>

theorem generateTitle_amended:
  "generateTitle text =
     (if length (title_line text) > 50
        then drop_trailing_space (take 50 (title_line text)) @ js ''...''
      else if title_line text = [] then js ''Untitled Note''
      else title_line text)
   \<and> (length (title_line text) > 50 \<and> \<not> isWhiteSpace (title_line text ! 49)
        \<longrightarrow> generateTitle text = take 50 (title_line text) @ js ''...'')"
proof -
  let ?c = "title_line text"
  have sub: "substring ?c 0 50 = take 50 ?c"
    using substring_take [of ?c 50] by simp
  have tr: "trim (take 50 ?c) = drop_trailing_space (take 50 ?c)"
  proof (rule trim_no_leading_space)
    show "take 50 ?c = [] \<or> \<not> isWhiteSpace (hd (take 50 ?c))"
    proof (cases "?c = []")
      case True
      then show ?thesis by simp
    next
      case False
      then have "\<not> isWhiteSpace (hd ?c)"
        unfolding title_line_def by (rule trim_hd)
      moreover from False have "hd (take 50 ?c) = hd ?c"
        by (cases ?c) auto
      ultimately show ?thesis by simp
    qed
  qed
  have main: "generateTitle text =
     (if length ?c > 50 then drop_trailing_space (take 50 ?c) @ js ''...''
      else if ?c = [] then js ''Untitled Note'' else ?c)"
    by (simp add: generateTitle_def Let_def generateTitle_cleaned sub tr)
  have "drop_trailing_space (take 50 ?c) = take 50 ?c"
    if "length ?c > 50" "\<not> isWhiteSpace (?c ! 49)"
  proof -
    from that(1) have "take 50 ?c \<noteq> []" by auto
    moreover from that(1) have "last (take 50 ?c) = ?c ! 49"
      using last_take_Suc [of 49 ?c] by simp
    ultimately have "rev (take 50 ?c) \<noteq> []" "\<not> isWhiteSpace (hd (rev (take 50 ?c)))"
      using that(2) by (simp_all add: hd_rev)
    then have "dropWhile isWhiteSpace (rev (take 50 ?c)) = rev (take 50 ?c)"
      by (cases "rev (take 50 ?c)") auto
    then show ?thesis by (simp add: drop_trailing_space_def)
  qed
  with main show ?thesis by simp
qed

theorem generateTitle_amended_witness:
  "generateTitle (js ''## abcdefghijklmnopqrstuvwxyzabcdefghijklmnopqrstuvwxyzabcdefgh'' @ [newline] @ js ''body'')
     = js ''abcdefghijklmnopqrstuvwxyzabcdefghijklmnopqrstuvwx...''"
proof -
  let ?t = "js ''## abcdefghijklmnopqrstuvwxyzabcdefghijklmnopqrstuvwxyzabcdefgh'' @ [newline] @ js ''body''"
  have h: "length (title_line ?t) > 50 \<and> \<not> isWhiteSpace (title_line ?t ! 49)"
    by code_simp
  have t: "take 50 (title_line ?t) @ js ''...'' = js ''abcdefghijklmnopqrstuvwxyzabcdefghijklmnopqrstuvwx...''"
    by code_simp
  from generateTitle_amended [of ?t] h have "generateTitle ?t = take 50 (title_line ?t) @ js ''...''"
    by blast
  with t show ?thesis by (simp only:)
qed

text \<open>
  C5. For a valid clock reading, every tag list and every optional source URL,
  \<open>createYamlFrontmatter\<close> emits, between two \<open>---\<close> lines, the keys \<open>modified\<close>,
  \<open>created\<close>, \<open>tags\<close> and then \<open>sources\<close>, in that order; \<open>modified\<close> and \<open>created\<close> carry
  the same local-time stamp \<open>YYYY-MM-DD HH:MM\<close>; the tags are a bracketed list joined
  by comma and space, \<open>[]\<close> when there are none; and the \<open>sources\<close> line
  \<open>sources: "[Website](url)"\<close> is present exactly when a non-empty source URL is given.
\<close>

theorem createYamlFrontmatter_format:
  assumes "valid_clock now"
  shows "createYamlFrontmatter now tags sourceUrl =
     js ''---'' @ [newline]
     @ js ''modified: '' @ stamp now @ [newline]
     @ js ''created: '' @ stamp now @ [newline]
     @ js ''tags: '' @ (if tags = [] then js ''[]'' else js ''['' @ join (js '', '') tags @ js '']'')
     @ (case sourceUrl of
          None \<Rightarrow> []
        | Some u \<Rightarrow> if u = [] then []
                    else [newline] @ js ''sources: '' @ [dquote] @ js ''[Website]('' @ u @ js '')'' @ [dquote])
     @ [newline] @ js ''---''"
  unfolding createYamlFrontmatter_def timestamp_stamp [OF assms] Let_def
  by (simp split: option.split)

theorem createYamlFrontmatter_format_witness:
  "createYamlFrontmatter
     \<lparr>getFullYear = 2025, getMonth = 9, getDate = 5, getHours = 14, getMinutes = 30\<rparr>
     [js ''AI'', js ''Research''] (Some (js ''https://example.com''))
   = js ''---'' @ [newline]
     @ js ''modified: 2025-10-05 14:30'' @ [newline]
     @ js ''created: 2025-10-05 14:30'' @ [newline]
     @ js ''tags: [AI, Research]'' @ [newline]
     @ js ''sources: '' @ [dquote] @ js ''[Website](https://example.com)'' @ [dquote] @ [newline]
     @ js ''---''"
proof -
  let ?now = "\<lparr>getFullYear = 2025, getMonth = 9, getDate = 5, getHours = 14, getMinutes = 30\<rparr>"
  have v: "valid_clock ?now"
    by (simp add: valid_clock_def)
  have s: "stamp ?now = js ''2025-10-05 14:30''"
    by (simp add: stamp_def four_digits_def two_digits_def digit_def js_def)
  have u: "js ''https://example.com'' \<noteq> []"
    by (simp add: js_def)
  show ?thesis
    unfolding createYamlFrontmatter_format [OF v] s
    using u by (simp add: js_def)
qed

text \<open>
  C3. For every input text and every list of vault folders, \<open>suggestTagsKeyword\<close>
  returns the leaf names of the first at most 3 entries of the ranking, where: each
  non-root folder gets, over its lower-cased leaf name, 10 if the whole leaf name
  occurs in the lower-cased text plus 3 for each word longer than 2 (splitting on
  white space, hyphen and underscore) that occurs in it; folders with score 0 are
  left out; and the ranking is a rearrangement of the remaining entries, sorted by
  descending score, that keeps the enumeration order among entries of equal score.
\<close>

theorem suggestTagsKeyword_ranking:
  "suggestTagsKeyword toLowerCase folders text
     = map folder (take 3 (keyword_ranking toLowerCase folders text))
   \<and> mset (keyword_ranking toLowerCase folders text)
       = mset (keyword_candidates toLowerCase folders text)
   \<and> sorted_wrt (\<lambda>a b. score a \<ge> score b) (keyword_ranking toLowerCase folders text)
   \<and> (\<forall>k. filter (\<lambda>t. score t = k) (keyword_ranking toLowerCase folders text)
            = filter (\<lambda>t. score t = k) (keyword_candidates toLowerCase folders text))"
proof -
  let ?c = "keyword_candidates toLowerCase folders text"
  let ?r = "keyword_ranking toLowerCase folders text"
  have 1: "suggestTagsKeyword toLowerCase folders text = map folder (take 3 ?r)"
    using collect_tags_candidates [of toLowerCase "text" folders "[]"]
    by (simp add: suggestTagsKeyword_def Let_def js_sort_sort_key keyword_ranking_def)
  have 2: "mset ?r = mset ?c"
    by (simp add: keyword_ranking_def)
  have "sorted (map (\<lambda>t. - score t) ?r)"
    by (simp add: keyword_ranking_def)
  then have 3: "sorted_wrt (\<lambda>a b. score a \<ge> score b) ?r"
    by (simp add: sorted_map sorted_wrt_map)
  have 4: "filter (\<lambda>t. score t = k) ?r = filter (\<lambda>t. score t = k) ?c" for k
    using sort_key_stable [of "\<lambda>t. - score t" "- k" ?c]
    by (simp add: keyword_ranking_def)
  from 1 2 3 4 show ?thesis by blast
qed

theorem suggestTagsKeyword_ranking_witness:
  "suggestTagsKeyword toLowerCase_ascii
     [js ''/'', js ''Research'', js ''Archive'', js ''Notes/deep-learning'', js ''Notes/AI Projects'']
     (js ''Research notes about AI projects and learning'')
   = [js ''Research'', js ''AI Projects'', js ''deep-learning'']"
proof -
  have e: "map folder (take 3 (keyword_ranking toLowerCase_ascii
     [js ''/'', js ''Research'', js ''Archive'', js ''Notes/deep-learning'', js ''Notes/AI Projects'']
     (js ''Research notes about AI projects and learning'')))
     = [js ''Research'', js ''AI Projects'', js ''deep-learning'']"
    by code_simp
  from suggestTagsKeyword_ranking [of toLowerCase_ascii
     "[js ''/'', js ''Research'', js ''Archive'', js ''Notes/deep-learning'', js ''Notes/AI Projects'']"
     "js ''Research notes about AI projects and learning''"] e
  show ?thesis by (simp only:)
qed

text \<open>
  C9. \<open>suggestTagsOpenAI\<close> returns exactly the tags of the keyword strategy on the same
  text whenever the API key is empty, or the request fails with a transport error, or
  the response is not 2xx, or the response body is not JSON, or the message content is
  missing or cannot be parsed as JSON, or the parsed content is not an array.
\<close>

theorem suggestTagsOpenAI_fallback:
  assumes "apiKey = []
     \<or> fetch apiKey (chat_prompt (folder_names folders) input) = FetchError
     \<or> (\<exists>status body. fetch apiKey (chat_prompt (folder_names folders) input) = Response status body
          \<and> (\<not> response_ok status
             \<or> JSON_parse body = None
             \<or> (\<exists>data. JSON_parse body = Some data
                  \<and> (message_content data = None
                     \<or> (\<exists>c. message_content data = Some c
                          \<and> (JSON_parse (trim c) = None
                             \<or> (\<exists>v. JSON_parse (trim c) = Some v \<and> \<not> isArray v)))))))"
  shows "suggestTagsOpenAI lc JSON_parse fetch apiKey folders input
         = map JString (suggestTagsKeyword lc folders input)"
proof (cases "apiKey = []")
  case True
  then show ?thesis by (simp add: suggestTagsOpenAI_def)
next
  case key: False
  show ?thesis
  proof (cases "folder_names folders = []")
    case True
    with key show ?thesis
      unfolding suggestTagsOpenAI_def Let_def folderNames_leaf
      by (simp add: suggestTagsKeyword_no_folders)
  next
    case False
    have na: "\<not> isArray v \<Longrightarrow> (case v of JArray xs \<Rightarrow> take 3 xs | _ \<Rightarrow> d) = d" for v d
      by (cases v) auto
    from assms key False show ?thesis
      unfolding suggestTagsOpenAI_def Let_def folderNames_leaf
      by (auto simp: na split: fetch_result.splits option.splits)
  qed
qed

theorem suggestTagsOpenAI_fallback_witness:
  "suggestTagsOpenAI toLowerCase_ascii (\<lambda>s. None) (\<lambda>k p. Response 500 (js ''Internal Server Error''))
     (js ''sk-test'') [js ''Research'', js ''Notes/AI Projects''] (js ''Research notes about AI projects'')
   = map JString (suggestTagsKeyword toLowerCase_ascii [js ''Research'', js ''Notes/AI Projects'']
       (js ''Research notes about AI projects''))
   \<and> suggestTagsOpenAI toLowerCase_ascii
     (\<lambda>s. if s = js ''body'' then
             Some (JObject [(js ''choices'', JArray [JObject [(js ''message'',
               JObject [(js ''content'', JString (js '' {} ''))])]])])
          else if s = js ''{}'' then Some (JObject []) else None)
     (\<lambda>k p. Response 200 (js ''body''))
     (js ''sk-test'') [js ''Research'', js ''Notes/AI Projects''] (js ''Research notes about AI projects'')
   = map JString (suggestTagsKeyword toLowerCase_ascii [js ''Research'', js ''Notes/AI Projects'']
       (js ''Research notes about AI projects''))"
proof -
  let ?fetch1 = "\<lambda>(k::jsstring) (p::jsstring). Response 500 (js ''Internal Server Error'')"
  let ?parse2 = "\<lambda>s. if s = js ''body'' then
             Some (JObject [(js ''choices'', JArray [JObject [(js ''message'',
               JObject [(js ''content'', JString (js '' {} ''))])]])])
          else if s = js ''{}'' then Some (JObject []) else None"
  let ?fetch2 = "\<lambda>(k::jsstring) (p::jsstring). Response 200 (js ''body'')"
  have a: "suggestTagsOpenAI lc (\<lambda>s. None) ?fetch1 key folders input
           = map JString (suggestTagsKeyword lc folders input)" for lc key folders input
    by (rule suggestTagsOpenAI_fallback) (simp add: response_ok_def)
  have mc: "message_content (JObject [(js ''choices'', JArray [JObject [(js ''message'',
               JObject [(js ''content'', JString (js '' {} ''))])]])]) = Some (js '' {} '')"
    by (simp add: message_content_def js_def)
  have tr: "trim (js '' {} '') = js ''{}''"
    by (simp add: trim_def js_def isWhiteSpace_def)
  have ne: "js ''{}'' \<noteq> js ''body''"
    by (simp add: js_def)
  have b: "suggestTagsOpenAI lc ?parse2 ?fetch2 key folders input
           = map JString (suggestTagsKeyword lc folders input)" for lc key folders input
    by (rule suggestTagsOpenAI_fallback) (simp add: response_ok_def mc tr ne)
  from a b show ?thesis by (simp only:)
qed

text \<open>
  C4. On a host that keeps numbered candidates apart, the path of a note and the path
  of an image are always found and are free in the vault at that moment. When the
  initial target (folder, sanitized name, extension) is free it is the final path;
  when it is occupied the final path has \<open>-k\<close> immediately before the extension, for
  the smallest \<open>k \<ge> 1\<close> whose path is free. For a note the extension is \<open>.md\<close> and the
  base is the sanitized title without its trailing \<open>...\<close>, if it has one; for an image
  the extension is the part of the sanitized name from its last dot. A note titled
  \<open>Draft\<close> next to \<open>Draft.md\<close> becomes \<open>Draft-1.md\<close>, and next to both \<open>Draft-2.md\<close>; a note
  titled \<open>Long...\<close> next to \<open>Long....md\<close> becomes \<open>Long-1.md\<close>.
\<close>

theorem collision_suffix:
  assumes "numbering_distinct h"
  shows "(\<exists>p. note_path h v inboxFolder title = Some p \<and> p \<notin> set v
            \<and> (normalizePath h (inboxFolder @ js ''/'' @ sanitize title @ js ''.md'') \<notin> set v
                 \<longrightarrow> p = normalizePath h (inboxFolder @ js ''/'' @ sanitize title @ js ''.md''))
            \<and> (normalizePath h (inboxFolder @ js ''/'' @ sanitize title @ js ''.md'') \<in> set v
                 \<longrightarrow> (\<exists>base k. (sanitize title = base @ js ''...''
                                 \<or> \<not> suffix (js ''...'') (sanitize title) \<and> base = sanitize title)
                       \<and> 1 \<le> k
                       \<and> p = normalizePath h (inboxFolder @ js ''/''
                                   @ base @ js ''-'' @ decimal k @ js ''.md'')
                       \<and> (\<forall>j. 1 \<le> j \<and> j < k \<longrightarrow>
                             normalizePath h (inboxFolder @ js ''/''
                               @ base @ js ''-'' @ decimal j @ js ''.md'') \<in> set v))))
       \<and> (\<exists>p base ext. image_path h v attachmentFolder filename = Some p \<and> p \<notin> set v
            \<and> sanitize filename = base @ ext
            \<and> (ext = [] \<and> (dot \<notin> set (sanitize filename) \<or> last (sanitize filename) = dot)
                \<or> (\<exists>r. ext = dot # r \<and> r \<noteq> [] \<and> dot \<notin> set r))
            \<and> (normalizePath h (attachmentFolder @ js ''/'' @ sanitize filename) \<notin> set v
                 \<longrightarrow> p = normalizePath h (attachmentFolder @ js ''/'' @ sanitize filename))
            \<and> (normalizePath h (attachmentFolder @ js ''/'' @ sanitize filename) \<in> set v
                 \<longrightarrow> (\<exists>k\<ge>1. p = normalizePath h (attachmentFolder @ js ''/''
                                   @ base @ js ''-'' @ decimal k @ ext)
                       \<and> (\<forall>j. 1 \<le> j \<and> j < k \<longrightarrow>
                             normalizePath h (attachmentFolder @ js ''/''
                               @ base @ js ''-'' @ decimal j @ ext) \<in> set v))))"
proof
  let ?s = "sanitize title"
  let ?fp = "normalizePath h (inboxFolder @ js ''/'' @ ?s @ js ''.md'')"
  let ?cand = "note_candidate h inboxFolder ?s"
  let ?b = "strip_ellipsis ?s"
  have c: "?cand k = normalizePath h (inboxFolder @ js ''/'' @ ?b @ js ''-'' @ decimal k @ js ''.md'')" for k
    by (simp add: note_candidate_def Let_def number_to_string_nat)
  have b: "?s = ?b @ js ''...'' \<or> \<not> suffix (js ''...'') ?s \<and> ?b = ?s"
    using strip_ellipsis_iff [of ?s ?b] by simp
  have np: "note_path h v inboxFolder title = free_path (\<lambda>q. q \<in> set v) ?cand ?fp 1"
    by (simp add: note_path_def Let_def)
  from free_path_least [OF note_candidate_inj [OF assms], of v inboxFolder ?s ?fp]
  obtain p where p: "free_path (\<lambda>q. q \<in> set v) ?cand ?fp 1 = Some p" "p \<notin> set v"
    "?fp \<notin> set v \<longrightarrow> p = ?fp"
    "?fp \<in> set v \<longrightarrow> (\<exists>k\<ge>1. p = ?cand k \<and> (\<forall>j. 1 \<le> j \<and> j < k \<longrightarrow> ?cand j \<in> set v))"
    by blast
  have p4: "\<exists>base k. (?s = base @ js ''...'' \<or> \<not> suffix (js ''...'') ?s \<and> base = ?s)
              \<and> 1 \<le> k
              \<and> p = normalizePath h (inboxFolder @ js ''/'' @ base @ js ''-'' @ decimal k @ js ''.md'')
              \<and> (\<forall>j. 1 \<le> j \<and> j < k \<longrightarrow>
                    normalizePath h (inboxFolder @ js ''/'' @ base @ js ''-'' @ decimal j @ js ''.md'')
                    \<in> set v)"
    if occ: "?fp \<in> set v"
  proof -
    from p(4) occ obtain k where k: "1 \<le> k" "p = ?cand k" "\<forall>j. 1 \<le> j \<and> j < k \<longrightarrow> ?cand j \<in> set v"
      by blast
    from b k show ?thesis
      unfolding c by (intro exI [of _ ?b] exI [of _ k]) simp
  qed
  from p(1,2,3) p4 np
  show "\<exists>p. note_path h v inboxFolder title = Some p \<and> p \<notin> set v
            \<and> (?fp \<notin> set v \<longrightarrow> p = ?fp)
            \<and> (?fp \<in> set v
                 \<longrightarrow> (\<exists>base k. (?s = base @ js ''...'' \<or> \<not> suffix (js ''...'') ?s \<and> base = ?s)
                       \<and> 1 \<le> k
                       \<and> p = normalizePath h (inboxFolder @ js ''/''
                                   @ base @ js ''-'' @ decimal k @ js ''.md'')
                       \<and> (\<forall>j. 1 \<le> j \<and> j < k \<longrightarrow>
                             normalizePath h (inboxFolder @ js ''/''
                               @ base @ js ''-'' @ decimal j @ js ''.md'') \<in> set v)))"
    by (intro exI [of _ p]) simp
next
  let ?s = "sanitize filename"
  let ?fp = "normalizePath h (attachmentFolder @ js ''/'' @ ?s)"
  let ?cand = "image_candidate h attachmentFolder ?s"
  obtain b e where be: "extension_match ?s = (b, e)"
    by (cases "extension_match ?s")
  have c: "?cand k = normalizePath h (attachmentFolder @ js ''/'' @ b @ js ''-'' @ decimal k @ e)" for k
    by (simp add: image_candidate_def be number_to_string_nat)
  have ip: "image_path h v attachmentFolder filename = free_path (\<lambda>q. q \<in> set v) ?cand ?fp 1"
    by (simp add: image_path_def Let_def)
  from extension_match_parts [OF be]
  have parts: "?s = b @ e" "e = [] \<or> (\<exists>r. e = dot # r \<and> r \<noteq> [] \<and> dot \<notin> set r)"
    by auto
  have ext: "e = [] \<and> (dot \<notin> set ?s \<or> last ?s = dot) \<or> (\<exists>r. e = dot # r \<and> r \<noteq> [] \<and> dot \<notin> set r)"
  proof (cases "e = []")
    case True
    with be extension_match_none [of ?s b] show ?thesis by simp
  next
    case False
    with parts(2) show ?thesis by simp
  qed
  from free_path_least [OF image_candidate_inj [OF assms], of v attachmentFolder ?s ?fp]
  obtain p where p: "free_path (\<lambda>q. q \<in> set v) ?cand ?fp 1 = Some p" "p \<notin> set v"
    "?fp \<notin> set v \<longrightarrow> p = ?fp"
    "?fp \<in> set v \<longrightarrow> (\<exists>k\<ge>1. p = ?cand k \<and> (\<forall>j. 1 \<le> j \<and> j < k \<longrightarrow> ?cand j \<in> set v))"
    by blast
  from p(4) have p4: "?fp \<in> set v \<longrightarrow> (\<exists>k\<ge>1. p = normalizePath h (attachmentFolder @ js ''/''
                                   @ b @ js ''-'' @ decimal k @ e)
                       \<and> (\<forall>j. 1 \<le> j \<and> j < k \<longrightarrow>
                             normalizePath h (attachmentFolder @ js ''/''
                               @ b @ js ''-'' @ decimal j @ e) \<in> set v))"
    unfolding c .
  from p(1,2,3) p4 parts(1) ext ip
  show "\<exists>p base ext. image_path h v attachmentFolder filename = Some p \<and> p \<notin> set v
            \<and> sanitize filename = base @ ext
            \<and> (ext = [] \<and> (dot \<notin> set (sanitize filename) \<or> last (sanitize filename) = dot)
                \<or> (\<exists>r. ext = dot # r \<and> r \<noteq> [] \<and> dot \<notin> set r))
            \<and> (?fp \<notin> set v \<longrightarrow> p = ?fp)
            \<and> (?fp \<in> set v
                 \<longrightarrow> (\<exists>k\<ge>1. p = normalizePath h (attachmentFolder @ js ''/''
                                   @ base @ js ''-'' @ decimal k @ ext)
                       \<and> (\<forall>j. 1 \<le> j \<and> j < k \<longrightarrow>
                             normalizePath h (attachmentFolder @ js ''/''
                               @ base @ js ''-'' @ decimal j @ ext) \<in> set v)))"
    by (intro exI [of _ p] exI [of _ b] exI [of _ e]) simp
qed

theorem collision_suffix_witness:
  "note_path example_host [js ''Inbox'', js ''Inbox/Draft.md''] (js ''Inbox'') (js ''Draft'')
     = Some (js ''Inbox/Draft-1.md'')
   \<and> note_path example_host [js ''Inbox'', js ''Inbox/Draft.md'', js ''Inbox/Draft-1.md'']
       (js ''Inbox'') (js ''Draft'') = Some (js ''Inbox/Draft-2.md'')
   \<and> note_path example_host [js ''Inbox'', js ''Inbox/Long....md''] (js ''Inbox'') (js ''Long...'')
       = Some (js ''Inbox/Long-1.md'')"
proof -
  let ?h = example_host
  let ?v1 = "[js ''Inbox'', js ''Inbox/Draft.md'']"
  let ?v2 = "[js ''Inbox'', js ''Inbox/Draft.md'', js ''Inbox/Draft-1.md'']"
  let ?v3 = "[js ''Inbox'', js ''Inbox/Long....md'']"
  let ?c = "\<lambda>k. normalizePath ?h (js ''Inbox'' @ js ''/'' @ js ''Draft'' @ js ''-'' @ decimal k @ js ''.md'')"
  let ?d = "\<lambda>k. normalizePath ?h (js ''Inbox'' @ js ''/'' @ js ''Long'' @ js ''-'' @ decimal k @ js ''.md'')"
  have s1: "sanitize (js ''Draft'') = js ''Draft''" by code_simp
  have s3: "sanitize (js ''Long...'') = js ''Long...''" by code_simp
  have b1: "base = js ''Draft''"
    if "js ''Draft'' = base @ js ''...'' \<or> \<not> suffix (js ''...'') (js ''Draft'') \<and> base = js ''Draft''"
    for base
  proof -
    have "\<not> suffix (js ''...'') (js ''Draft'')" by (simp add: js_def suffix_Cons)
    then have "js ''Draft'' \<noteq> base @ js ''...''" unfolding suffix_def by blast
    with that show ?thesis by blast
  qed
  have b3: "base = js ''Long''"
    if "js ''Long...'' = base @ js ''...'' \<or> \<not> suffix (js ''...'') (js ''Long...'') \<and> base = js ''Long...''"
    for base
  proof -
    have "js ''Long...'' = js ''Long'' @ js ''...''" by (simp add: js_def)
    then have e: "js ''Long...'' = base @ js ''...'' \<longleftrightarrow> base = js ''Long''"
      by (simp only: append_same_eq) blast
    have "suffix (js ''...'') (js ''Long...'')"
      unfolding suffix_def by (rule exI [of _ "js ''Long''"]) (simp add: js_def)
    with that e show ?thesis by blast
  qed
  have occ1: "normalizePath ?h (js ''Inbox'' @ js ''/'' @ sanitize (js ''Draft'') @ js ''.md'') \<in> set ?v1"
    by code_simp
  have occ2: "normalizePath ?h (js ''Inbox'' @ js ''/'' @ sanitize (js ''Draft'') @ js ''.md'') \<in> set ?v2"
    by code_simp
  have occ3: "normalizePath ?h (js ''Inbox'' @ js ''/'' @ sanitize (js ''Long...'') @ js ''.md'') \<in> set ?v3"
    by code_simp
  have c1: "?c 1 = js ''Inbox/Draft-1.md''" by code_simp
  have c2: "?c 2 = js ''Inbox/Draft-2.md''" by code_simp
  have d1: "?d 1 = js ''Inbox/Long-1.md''" by code_simp
  have f1: "js ''Inbox/Draft-1.md'' \<notin> set ?v1" by code_simp
  have f2: "js ''Inbox/Draft-2.md'' \<notin> set ?v2" "js ''Inbox/Draft-1.md'' \<in> set ?v2" by code_simp+
  have f3: "js ''Inbox/Long-1.md'' \<notin> set ?v3" by code_simp
  from collision_suffix [OF example_host_numbering, of ?v1 "js ''Inbox''" "js ''Draft''"] occ1
  obtain p base k where pk: "note_path ?h ?v1 (js ''Inbox'') (js ''Draft'') = Some p" "p \<notin> set ?v1"
    "js ''Draft'' = base @ js ''...'' \<or> \<not> suffix (js ''...'') (js ''Draft'') \<and> base = js ''Draft''"
    "1 \<le> k"
    "p = normalizePath ?h (js ''Inbox'' @ js ''/'' @ base @ js ''-'' @ decimal k @ js ''.md'')"
    "\<forall>j. 1 \<le> j \<and> j < k \<longrightarrow>
       normalizePath ?h (js ''Inbox'' @ js ''/'' @ base @ js ''-'' @ decimal j @ js ''.md'') \<in> set ?v1"
    unfolding s1 by blast
  note pk' = pk(5,6) [unfolded b1 [OF pk(3)]]
  have "k = 1"
  proof (rule ccontr)
    assume "k \<noteq> 1"
    with pk(4) have "1 < k" by simp
    with pk'(2) have "?c 1 \<in> set ?v1" by blast
    with c1 f1 show False by simp
  qed
  with pk(1) pk'(1) c1 have a: "note_path ?h ?v1 (js ''Inbox'') (js ''Draft'') = Some (js ''Inbox/Draft-1.md'')"
    by simp
  from collision_suffix [OF example_host_numbering, of ?v2 "js ''Inbox''" "js ''Draft''"] occ2
  obtain q base2 m where qm: "note_path ?h ?v2 (js ''Inbox'') (js ''Draft'') = Some q" "q \<notin> set ?v2"
    "js ''Draft'' = base2 @ js ''...'' \<or> \<not> suffix (js ''...'') (js ''Draft'') \<and> base2 = js ''Draft''"
    "1 \<le> m"
    "q = normalizePath ?h (js ''Inbox'' @ js ''/'' @ base2 @ js ''-'' @ decimal m @ js ''.md'')"
    "\<forall>j. 1 \<le> j \<and> j < m \<longrightarrow>
       normalizePath ?h (js ''Inbox'' @ js ''/'' @ base2 @ js ''-'' @ decimal j @ js ''.md'') \<in> set ?v2"
    unfolding s1 by blast
  note qm' = qm(5,6) [unfolded b1 [OF qm(3)]]
  have "m = 2"
  proof (rule ccontr)
    assume n2: "m \<noteq> 2"
    show False
    proof (cases "m = 1")
      case True
      with qm(2) qm'(1) c1 f2(2) show False by simp
    next
      case False
      with n2 qm(4) have "2 < m" by simp
      with qm'(2) have "?c 2 \<in> set ?v2" by simp
      with c2 f2(1) show False by simp
    qed
  qed
  with qm(1) qm'(1) c2 have b: "note_path ?h ?v2 (js ''Inbox'') (js ''Draft'') = Some (js ''Inbox/Draft-2.md'')"
    by simp
  from collision_suffix [OF example_host_numbering, of ?v3 "js ''Inbox''" "js ''Long...''"] occ3
  obtain r base3 n where rn: "note_path ?h ?v3 (js ''Inbox'') (js ''Long...'') = Some r" "r \<notin> set ?v3"
    "js ''Long...'' = base3 @ js ''...'' \<or> \<not> suffix (js ''...'') (js ''Long...'') \<and> base3 = js ''Long...''"
    "1 \<le> n"
    "r = normalizePath ?h (js ''Inbox'' @ js ''/'' @ base3 @ js ''-'' @ decimal n @ js ''.md'')"
    "\<forall>j. 1 \<le> j \<and> j < n \<longrightarrow>
       normalizePath ?h (js ''Inbox'' @ js ''/'' @ base3 @ js ''-'' @ decimal j @ js ''.md'') \<in> set ?v3"
    unfolding s3 by blast
  note rn' = rn(5,6) [unfolded b3 [OF rn(3)]]
  have "n = 1"
  proof (rule ccontr)
    assume "n \<noteq> 1"
    with rn(4) have "1 < n" by simp
    with rn'(2) have "?d 1 \<in> set ?v3" by blast
    with d1 f3 show False by simp
  qed
  with rn(1) rn'(1) d1 have c: "note_path ?h ?v3 (js ''Inbox'') (js ''Long...'') = Some (js ''Inbox/Long-1.md'')"
    by simp
  from a b c show ?thesis by (simp only:)
qed

text \<open>
  C8. On a host that keeps numbered candidates apart, \<open>downloadImage\<close> always returns
  a string and never throws: the original URL when the request is rejected or its
  status is not 200, when the attachment folder cannot be created, or when the write
  fails; otherwise the final local path, which is free in the vault and is the
  attachment folder joined with the sanitized file name when that path is free.
\<close>

theorem downloadImage_degrades:
  assumes "numbering_distinct h"
  shows "\<exists>r v'. downloadImage h v imageUrl filename notePath = Some (r, v')
     \<and> (requestUrl h imageUrl \<noteq> Some 200 \<longrightarrow> r = imageUrl)
     \<and> (attachment_folder_ready h v (getAttachmentFolder (attachmentFolderPath h) notePath) = None
          \<longrightarrow> r = imageUrl)
     \<and> (\<forall>v1. requestUrl h imageUrl = Some 200
          \<and> attachment_folder_ready h v (getAttachmentFolder (attachmentFolderPath h) notePath) = Some v1
          \<longrightarrow> (\<exists>p. image_path h v1 (getAttachmentFolder (attachmentFolderPath h) notePath) filename = Some p
                 \<and> p \<notin> set v1
                 \<and> (normalizePath h (getAttachmentFolder (attachmentFolderPath h) notePath
                        @ js ''/'' @ sanitize filename) \<notin> set v1
                      \<longrightarrow> p = normalizePath h (getAttachmentFolder (attachmentFolderPath h) notePath
                                 @ js ''/'' @ sanitize filename))
                 \<and> (createBinary h v1 p = None \<longrightarrow> r = imageUrl)
                 \<and> (createBinary h v1 p \<noteq> None \<longrightarrow> r = p)))"
proof -
  let ?f = "getAttachmentFolder (attachmentFolderPath h) notePath"
  show ?thesis
  proof (cases "requestUrl h imageUrl = Some 200")
    case False
    then have "downloadImage h v imageUrl filename notePath = Some (imageUrl, v)"
      by (auto simp: downloadImage_def split: option.splits)
    with False show ?thesis by simp
  next
    case ok: True
    show ?thesis
    proof (cases "attachment_folder_ready h v ?f")
      case None
      with ok have "downloadImage h v imageUrl filename notePath = Some (imageUrl, v)"
        by (simp add: downloadImage_def Let_def)
      with ok None show ?thesis by simp
    next
      case (Some v1)
      from image_path_total [OF assms, of v1 ?f filename]
      obtain p where p: "image_path h v1 ?f filename = Some p" "p \<notin> set v1"
        "normalizePath h (?f @ js ''/'' @ sanitize filename) \<notin> set v1
           \<longrightarrow> p = normalizePath h (?f @ js ''/'' @ sanitize filename)"
        by blast
      show ?thesis
      proof (cases "createBinary h v1 p")
        case None
        with ok Some p(1) have "downloadImage h v imageUrl filename notePath = Some (imageUrl, v1)"
          by (simp add: downloadImage_def Let_def)
        with ok Some p None show ?thesis by simp
      next
        case (Some v2)
        with ok \<open>attachment_folder_ready h v ?f = Some v1\<close> p(1)
        have "downloadImage h v imageUrl filename notePath = Some (p, v2)"
          by (simp add: downloadImage_def Let_def)
        with ok \<open>attachment_folder_ready h v ?f = Some v1\<close> p Some show ?thesis by simp
      qed
    qed
  qed
qed

theorem downloadImage_degrades_witness:
  "(\<exists>v'. downloadImage example_host [js ''Inbox'', js ''Inbox/n.md'']
            (js ''https://site.com/a:b.png'') (js ''x7k_a:b.png'') (js ''Inbox/n.md'')
          = Some (js ''Inbox/x7k_a-b.png'', v'))
   \<and> (\<exists>v'. downloadImage (example_host\<lparr>requestUrl := \<lambda>u. Some 404\<rparr>) [js ''Inbox'', js ''Inbox/n.md'']
            (js ''https://site.com/a:b.png'') (js ''x7k_a:b.png'') (js ''Inbox/n.md'')
          = Some (js ''https://site.com/a:b.png'', v'))"
proof -
  let ?v = "[js ''Inbox'', js ''Inbox/n.md'']"
  let ?u = "js ''https://site.com/a:b.png''"
  let ?n = "js ''x7k_a:b.png''"
  let ?h2 = "example_host\<lparr>requestUrl := \<lambda>u. Some 404\<rparr>"
  have nd2: "numbering_distinct ?h2"
    by (rule numbering_distinct_id) (simp add: example_host_def)
  have f: "getAttachmentFolder (attachmentFolderPath example_host) (js ''Inbox/n.md'') = js ''Inbox''"
    by code_simp
  have r: "attachment_folder_ready example_host ?v (js ''Inbox'') = Some ?v"
    by code_simp
  have t: "normalizePath example_host (js ''Inbox'' @ js ''/'' @ sanitize ?n) = js ''Inbox/x7k_a-b.png''"
    by code_simp
  have fr: "js ''Inbox/x7k_a-b.png'' \<notin> set ?v"
    by code_simp
  have rq: "requestUrl example_host ?u = Some 200"
    by (simp add: example_host_def)
  have cb: "createBinary example_host ?v p \<noteq> None" for p
    by (simp add: example_host_def)
  from downloadImage_degrades [OF example_host_numbering, of ?v ?u ?n "js ''Inbox/n.md''"]
  obtain r1 v1 where a: "downloadImage example_host ?v ?u ?n (js ''Inbox/n.md'') = Some (r1, v1)"
    and "\<exists>p. p = js ''Inbox/x7k_a-b.png'' \<and> r1 = p"
    unfolding f using r t fr rq cb by auto
  then have 1: "\<exists>v'. downloadImage example_host ?v ?u ?n (js ''Inbox/n.md'')
                  = Some (js ''Inbox/x7k_a-b.png'', v')"
    by auto
  have rq2: "requestUrl ?h2 ?u \<noteq> Some 200"
    by simp
  from downloadImage_degrades [OF nd2, of ?v ?u ?n "js ''Inbox/n.md''"] rq2
  have 2: "\<exists>v'. downloadImage ?h2 ?v ?u ?n (js ''Inbox/n.md'') = Some (?u, v')"
    by blast
  from 1 2 show ?thesis by (simp only:)
qed

text \<open>
  C1 as stated fails. With the alt text \<open>$&\<close> the replacement string is expanded by
  \<open>String.replace\<close> and the alt text is not preserved. With a reference whose URL
  contains the text of a later reference, the later replacement lands inside the
  earlier one and the later reference keeps its relative URL. With \<open>$&\<close> in the URL
  the resolved URL is expanded in the same way and the result is not the resolution.
\<close>

theorem convertRelativeImageUrls_counterexample:
  "scan_images (js ''![$&](a.png)'') = [(js ''$&'', js ''a.png'')]
   \<and> rfc3986_resolve (js ''a.png'') (js ''https://site.com/page/'') = Some (js ''https://site.com/page/a.png'')
   \<and> convertRelativeImageUrls rfc3986_resolve (js ''![$&](a.png)'') (js ''https://site.com/page'')
       = js ''![![$&](a.png)](https://site.com/page/a.png)''
   \<and> convertRelativeImageUrls rfc3986_resolve (js ''![$&](a.png)'') (js ''https://site.com/page'')
       \<noteq> js ''![$&](https://site.com/page/a.png)''
   \<and> scan_images (js ''![a](x/![b](u2) ![b](u2)'') = [(js ''a'', js ''x/![b](u2''), (js ''b'', js ''u2'')]
   \<and> convertRelativeImageUrls rfc3986_resolve (js ''![a](x/![b](u2) ![b](u2)'') (js ''https://site.com/page'')
       = js ''![a](https://site.com/page/x/![b](https://site.com/page/u2) ![b](u2)''
   \<and> convertRelativeImageUrls rfc3986_resolve (js ''![a](x/![b](u2) ![b](u2)'') (js ''https://site.com/page'')
       \<noteq> js ''![a](https://site.com/page/x/![b](u2) ![b](https://site.com/page/u2)''
   \<and> scan_images (js ''![a]($&.png)'') = [(js ''a'', js ''$&.png'')]
   \<and> rfc3986_resolve (js ''$&.png'') (js ''https://site.com/page/'')
       = Some (js ''https://site.com/page/$&.png'')
   \<and> convertRelativeImageUrls rfc3986_resolve (js ''![a]($&.png)'') (js ''https://site.com/page'')
       = js ''![a](https://site.com/page/![a]($&.png).png)''
   \<and> convertRelativeImageUrls rfc3986_resolve (js ''![a]($&.png)'') (js ''https://site.com/page'')
       \<noteq> js ''![a](https://site.com/page/$&.png)''"
  by code_simp

text \<open>
  C1, amended. Call a string pattern-free when no \<open>$\<close> in it is followed by \<open>$\<close>, \<open>&\<close>,
  \<open>`\<close> or \<open>'\<close> (a \<open>$\<close> before anything else, as in \<open>$5\<close>, is allowed). For every Markdown
  string and base URL: (1) when, for each image reference that is resolved, the first
  occurrence of its text in the partly rewritten Markdown is that reference and its
  alt text and its resolved URL are pattern-free, the pass returns the Markdown with
  the URL of every reference that has none of the prefixes \<open>http://\<close>, \<open>https://\<close>,
  \<open>data:\<close>, \<open>blob:\<close> and whose resolution succeeds replaced by its resolution against the
  base URL (with \<open>/\<close> appended when it lacks one), alt texts, other references and all
  other text unchanged; (2) when every reference has one of the prefixes or fails to
  resolve, the Markdown is returned unchanged (a failing resolution does not abort
  the pass); (3) when the Markdown holds exactly one image reference, it resolves
  and its alt text and its resolved URL are pattern-free, exactly the URL of that
  reference is replaced. Base \<open>https://site.com/page\<close> with \<open>images/photo.png\<close> gives
  \<open>https://site.com/page/images/photo.png\<close>, and \<open>![cost $5](a.png)\<close> becomes
  \<open>![cost $5](https://site.com/page/a.png)\<close>.
\<close>

theorem convertRelativeImageUrls_amended:
  "(first_occurrence_ok (resolution URL_resolve baseUrl) [] (image_tokens markdownContent)
      \<longrightarrow> convertRelativeImageUrls URL_resolve markdownContent baseUrl
          = absolutize_spec URL_resolve markdownContent baseUrl)
   \<and> ((\<forall>(alt, url) \<in> set (scan_images markdownContent). resolution URL_resolve baseUrl url = None)
      \<longrightarrow> convertRelativeImageUrls URL_resolve markdownContent baseUrl = markdownContent)
   \<and> (scan_images markdownContent = [(alt, url)]
        \<and> resolution URL_resolve baseUrl url = Some absolute
        \<and> dollar_pattern_free alt \<and> dollar_pattern_free absolute
      \<longrightarrow> (\<exists>g r. markdownContent = g @ image_text alt url @ r
            \<and> convertRelativeImageUrls URL_resolve markdownContent baseUrl
                = g @ image_text alt absolute @ r))"
  using convert_spec convert_no_replacement convert_single_image by blast

theorem convertRelativeImageUrls_amended_witness:
  "convertRelativeImageUrls rfc3986_resolve
     (js ''Intro ![logo](https://cdn.com/l.png) and ![photo](images/photo.png), ![x](../shared/logo.png) end'')
     (js ''https://site.com/page'')
   = js ''Intro ![logo](https://cdn.com/l.png) and ![photo](https://site.com/page/images/photo.png), ![x](https://site.com/shared/logo.png) end''
   \<and> convertRelativeImageUrls (\<lambda>u b. None)
       (js ''![a](data:image/png;base64,AAAA) ![b](rel.png)'') (js ''https://site.com/page'')
     = js ''![a](data:image/png;base64,AAAA) ![b](rel.png)''
   \<and> convertRelativeImageUrls rfc3986_resolve (js ''![photo](images/photo.png)'')
       (js ''https://site.com/page'')
     = js ''![photo](https://site.com/page/images/photo.png)''
   \<and> convertRelativeImageUrls rfc3986_resolve (js ''![cost $5](a.png) and ![b](c$d.png)'')
       (js ''https://site.com/page'')
     = js ''![cost $5](https://site.com/page/a.png) and ![b](https://site.com/page/c$d.png)''"
proof -
  let ?md1 = "js ''Intro ![logo](https://cdn.com/l.png) and ![photo](images/photo.png), ![x](../shared/logo.png) end''"
  let ?md2 = "js ''![a](data:image/png;base64,AAAA) ![b](rel.png)''"
  let ?md3 = "js ''![photo](images/photo.png)''"
  let ?md4 = "js ''![cost $5](a.png) and ![b](c$d.png)''"
  let ?base = "js ''https://site.com/page''"
  have ok1: "first_occurrence_ok (resolution rfc3986_resolve ?base) [] (image_tokens ?md1)"
    by code_simp
  have sp1: "absolutize_spec rfc3986_resolve ?md1 ?base
     = js ''Intro ![logo](https://cdn.com/l.png) and ![photo](https://site.com/page/images/photo.png), ![x](https://site.com/shared/logo.png) end''"
    by code_simp
  from convertRelativeImageUrls_amended [of rfc3986_resolve ?base ?md1] ok1 sp1
  have 1: "convertRelativeImageUrls rfc3986_resolve ?md1 ?base
     = js ''Intro ![logo](https://cdn.com/l.png) and ![photo](https://site.com/page/images/photo.png), ![x](https://site.com/shared/logo.png) end''"
    by simp
  have no2: "\<forall>(alt, url) \<in> set (scan_images ?md2). resolution (\<lambda>u b. None) ?base url = None"
    by code_simp
  from convertRelativeImageUrls_amended [of "\<lambda>u b. None" ?base ?md2] no2
  have 2: "convertRelativeImageUrls (\<lambda>u b. None) ?md2 ?base = ?md2"
    by blast
  have sc3: "scan_images ?md3 = [(js ''photo'', js ''images/photo.png'')]"
    by code_simp
  have rs3: "resolution rfc3986_resolve ?base (js ''images/photo.png'')
             = Some (js ''https://site.com/page/images/photo.png'')"
    by code_simp
  have d3: "dollar_pattern_free (js ''photo'')"
    "dollar_pattern_free (js ''https://site.com/page/images/photo.png'')"
    by code_simp+
  from convertRelativeImageUrls_amended [of rfc3986_resolve ?base ?md3 "js ''photo''"
      "js ''images/photo.png''" "js ''https://site.com/page/images/photo.png''"] sc3 rs3 d3
  obtain g r where gr: "?md3 = g @ image_text (js ''photo'') (js ''images/photo.png'') @ r"
    "convertRelativeImageUrls rfc3986_resolve ?md3 ?base
       = g @ image_text (js ''photo'') (js ''https://site.com/page/images/photo.png'') @ r"
    by blast
  have "?md3 = image_text (js ''photo'') (js ''images/photo.png'')"
    by code_simp
  with gr(1) have "length (g @ image_text (js ''photo'') (js ''images/photo.png'') @ r)
                   = length (image_text (js ''photo'') (js ''images/photo.png''))"
    by simp
  then have "g = []" "r = []" by simp_all
  moreover have "image_text (js ''photo'') (js ''https://site.com/page/images/photo.png'')
                 = js ''![photo](https://site.com/page/images/photo.png)''"
    by code_simp
  ultimately have 3: "convertRelativeImageUrls rfc3986_resolve ?md3 ?base
                      = js ''![photo](https://site.com/page/images/photo.png)''"
    using gr(2) by simp
  have ok4: "first_occurrence_ok (resolution rfc3986_resolve ?base) [] (image_tokens ?md4)"
    by code_simp
  have sp4: "absolutize_spec rfc3986_resolve ?md4 ?base
     = js ''![cost $5](https://site.com/page/a.png) and ![b](https://site.com/page/c$d.png)''"
    by code_simp
  from convertRelativeImageUrls_amended [of rfc3986_resolve ?base ?md4] ok4 sp4
  have 4: "convertRelativeImageUrls rfc3986_resolve ?md4 ?base
     = js ''![cost $5](https://site.com/page/a.png) and ![b](https://site.com/page/c$d.png)''"
    by simp
  from 1 2 3 4 show ?thesis by (simp only:)
qed

text \<open>
  C10. For a URL clip with image downloads enabled, on a host that keeps numbered
  candidates apart and on which the inbox folder, the creation and the modification
  of the note succeed, the run makes two writes to the same path: the first with the
  frontmatter of the first clock reading, the second with a frontmatter built anew
  from the second clock reading. For a valid second reading the final note's
  \<open>modified\<close> and \<open>created\<close> lines both carry the stamp of the second reading, and for
  valid readings in different minutes that stamp differs from the first one.
\<close>

theorem rewrite_regenerates_timestamps:
  assumes nd: "numbering_distinct h"
    and url: "sourceUrl = Some u" "u \<noteq> []" and dl: "downloadImages"
    and folder: "ensureFolderExists h v inboxFolder = Some v1"
    and created: "\<And>p c. create h v1 p c \<noteq> None"
    and modified: "\<And>w p c. modify h w p c \<noteq> None"
  shows "\<exists>p body. createNoteFromClipboard h URL_pathname v inboxFolder downloadImages now1 now2
             imagePrefix title content tags sourceUrl
           = Some [(p, createYamlFrontmatter now1 tags sourceUrl @ [newline, newline] @ content),
                   (p, createYamlFrontmatter now2 tags sourceUrl @ [newline, newline] @ body)]
         \<and> (valid_clock now2 \<longrightarrow>
              (\<exists>rest. createYamlFrontmatter now2 tags sourceUrl @ [newline, newline] @ body
                 = js ''---'' @ [newline] @ js ''modified: '' @ stamp now2 @ [newline]
                   @ js ''created: '' @ stamp now2 @ [newline] @ rest))
         \<and> (valid_clock now1 \<and> valid_clock now2 \<and> clock_minute now1 \<noteq> clock_minute now2
              \<longrightarrow> stamp now2 \<noteq> stamp now1)"
proof -
  let ?full = "createYamlFrontmatter now1 tags sourceUrl @ [newline, newline] @ content"
  from note_path_total [OF nd, of v1 inboxFolder title]
  obtain p where p: "note_path h v1 inboxFolder title = Some p" by blast
  from created [of p ?full] obtain v2 where v2: "create h v1 p ?full = Some v2" by blast
  from downloadImagesInContent_total [OF nd, of URL_pathname v2 content u p imagePrefix]
  obtain body v3 where b: "downloadImagesInContent h URL_pathname v2 content u p imagePrefix
                           = Some (body, v3)" by blast
  let ?upd = "createYamlFrontmatter now2 tags sourceUrl @ [newline, newline] @ body"
  from modified [of v3 p ?upd] obtain v4 where v4: "modify h v3 p ?upd = Some v4" by blast
  have run: "createNoteFromClipboard h URL_pathname v inboxFolder downloadImages now1 now2
             imagePrefix title content tags sourceUrl = Some [(p, ?full), (p, ?upd)]"
    using url dl folder p v2 b v4
    by (simp add: createNoteFromClipboard_def Let_def)
  have hdr: "\<exists>rest. ?upd = js ''---'' @ [newline] @ js ''modified: '' @ stamp now2 @ [newline]
                   @ js ''created: '' @ stamp now2 @ [newline] @ rest" if "valid_clock now2"
  proof -
    from frontmatter_header [OF that, of tags sourceUrl] obtain rest where
      "createYamlFrontmatter now2 tags sourceUrl
         = js ''---'' @ [newline] @ js ''modified: '' @ stamp now2 @ [newline]
           @ js ''created: '' @ stamp now2 @ [newline] @ rest" by blast
    then have "?upd = js ''---'' @ [newline] @ js ''modified: '' @ stamp now2 @ [newline]
           @ js ''created: '' @ stamp now2 @ [newline] @ (rest @ [newline, newline] @ body)"
      by simp
    then show ?thesis by blast
  qed
  have diff: "stamp now2 \<noteq> stamp now1"
    if "valid_clock now1" "valid_clock now2" "clock_minute now1 \<noteq> clock_minute now2"
    using stamp_inj [of now1 now2] that by auto
  from run hdr diff show ?thesis by blast
qed

theorem rewrite_regenerates_timestamps_witness:
  "createNoteFromClipboard example_host (\<lambda>u. Some (uri_path (parse_uri u))) [js ''Inbox''] (js ''Inbox'') True
     \<lparr>getFullYear = 2025, getMonth = 9, getDate = 5, getHours = 14, getMinutes = 30\<rparr>
     \<lparr>getFullYear = 2025, getMonth = 9, getDate = 5, getHours = 14, getMinutes = 31\<rparr>
     (js ''x7k'') (js ''Page'') (js ''![pic](https://site.com/img/a.png)'') []
     (Some (js ''https://site.com/page''))
   = Some [(js ''Inbox/Page.md'',
            js ''---'' @ [newline] @ js ''modified: 2025-10-05 14:30'' @ [newline]
            @ js ''created: 2025-10-05 14:30'' @ [newline] @ js ''tags: []'' @ [newline]
            @ js ''sources: '' @ [dquote] @ js ''[Website](https://site.com/page)'' @ [dquote]
            @ [newline] @ js ''---'' @ [newline, newline]
            @ js ''![pic](https://site.com/img/a.png)''),
           (js ''Inbox/Page.md'',
            js ''---'' @ [newline] @ js ''modified: 2025-10-05 14:31'' @ [newline]
            @ js ''created: 2025-10-05 14:31'' @ [newline] @ js ''tags: []'' @ [newline]
            @ js ''sources: '' @ [dquote] @ js ''[Website](https://site.com/page)'' @ [dquote]
            @ [newline] @ js ''---'' @ [newline, newline]
            @ js ''![pic](Inbox/x7k_a.png)'')]
   \<and> stamp \<lparr>getFullYear = 2025, getMonth = 9, getDate = 5, getHours = 14, getMinutes = 31\<rparr>
       \<noteq> stamp \<lparr>getFullYear = 2025, getMonth = 9, getDate = 5, getHours = 14, getMinutes = 30\<rparr>"
proof -
  let ?now1 = "\<lparr>getFullYear = 2025, getMonth = 9, getDate = 5, getHours = 14, getMinutes = 30\<rparr>"
  let ?now2 = "\<lparr>getFullYear = 2025, getMonth = 9, getDate = 5, getHours = 14, getMinutes = 31\<rparr>"
  have run: "createNoteFromClipboard example_host (\<lambda>u. Some (uri_path (parse_uri u))) [js ''Inbox''] (js ''Inbox'') True
     ?now1 ?now2 (js ''x7k'') (js ''Page'') (js ''![pic](https://site.com/img/a.png)'') []
     (Some (js ''https://site.com/page''))
   = Some [(js ''Inbox/Page.md'',
            js ''---'' @ [newline] @ js ''modified: 2025-10-05 14:30'' @ [newline]
            @ js ''created: 2025-10-05 14:30'' @ [newline] @ js ''tags: []'' @ [newline]
            @ js ''sources: '' @ [dquote] @ js ''[Website](https://site.com/page)'' @ [dquote]
            @ [newline] @ js ''---'' @ [newline, newline]
            @ js ''![pic](https://site.com/img/a.png)''),
           (js ''Inbox/Page.md'',
            js ''---'' @ [newline] @ js ''modified: 2025-10-05 14:31'' @ [newline]
            @ js ''created: 2025-10-05 14:31'' @ [newline] @ js ''tags: []'' @ [newline]
            @ js ''sources: '' @ [dquote] @ js ''[Website](https://site.com/page)'' @ [dquote]
            @ [newline] @ js ''---'' @ [newline, newline]
            @ js ''![pic](Inbox/x7k_a.png)'')]"
  proof -
    let ?h = example_host
    let ?P = "\<lambda>u. Some (uri_path (parse_uri u))"
    let ?v2 = "[js ''Inbox'', js ''Inbox/Page.md'']"
    let ?url = "js ''https://site.com/img/a.png''"
    have np: "note_path ?h [js ''Inbox''] (js ''Inbox'') (js ''Page'') = Some (js ''Inbox/Page.md'')"
      by (simp add: note_path_def Let_def free_path.simps example_host_def sanitize_def js_def)
    have ef: "ensureFolderExists ?h [js ''Inbox''] (js ''Inbox'') = Some [js ''Inbox'']"
      by code_simp
    have cr: "create ?h [js ''Inbox''] p c = Some ([js ''Inbox''] @ [p])" for p c
      by (simp add: example_host_def)
    have v2: "[js ''Inbox''] @ [js ''Inbox/Page.md''] = ?v2"
      by simp
    have ip: "image_path ?h ?v2 (js ''Inbox'') (js ''x7k_a.png'') = Some (js ''Inbox/x7k_a.png'')"
      by (simp add: image_path_def Let_def free_path.simps example_host_def sanitize_def js_def)
    have af: "getAttachmentFolder (attachmentFolderPath ?h) (js ''Inbox/Page.md'') = js ''Inbox''"
      by code_simp
    have ar: "attachment_folder_ready ?h ?v2 (js ''Inbox'') = Some ?v2"
      by code_simp
    have dl: "downloadImage ?h ?v2 ?url (js ''x7k_a.png'') (js ''Inbox/Page.md'')
              = Some (js ''Inbox/x7k_a.png'', ?v2 @ [js ''Inbox/x7k_a.png''])"
    proof -
      have rq: "requestUrl ?h ?url = Some 200"
        by (simp add: example_host_def)
      have cb: "createBinary ?h ?v2 (js ''Inbox/x7k_a.png'') = Some (?v2 @ [js ''Inbox/x7k_a.png''])"
        by (simp add: example_host_def)
      show ?thesis
        unfolding downloadImage_def Let_def rq af by (simp add: ar ip cb)
    qed
    have sc: "scan_images (js ''![pic](https://site.com/img/a.png)'') = [(js ''pic'', ?url)]"
      by code_simp
    have sw: "startsWith ?url (js ''https://'')"
      by code_simp
    have pa: "uri_path (parse_uri ?url) = js ''/img/a.png''"
      by code_simp
    have lp: "split_char slash (js ''/img/a.png'')
                ! (length (split_char slash (js ''/img/a.png'')) - Suc 0) = js ''a.png''"
      by code_simp
    have inc: "includes_str (js ''a.png'') (js ''.'')" "js ''a.png'' \<noteq> []"
      "js ''x7k'' @ js ''_'' @ js ''a.png'' = js ''x7k_a.png''"
      by code_simp+
    have dr: "download_replacements ?h ?P (js ''Inbox/Page.md'') (js ''x7k'') [(js ''pic'', ?url)] ?v2 []
              = Some ([(image_text (js ''pic'') ?url, image_text (js ''pic'') (js ''Inbox/x7k_a.png''))],
                      ?v2 @ [js ''Inbox/x7k_a.png''])"
      using sw by (simp add: Let_def pa lp inc dl)
    have ap: "apply_replacements
                [(image_text (js ''pic'') ?url, image_text (js ''pic'') (js ''Inbox/x7k_a.png''))]
                (js ''![pic](https://site.com/img/a.png)'') = js ''![pic](Inbox/x7k_a.png)''"
      by code_simp
    have dc: "downloadImagesInContent ?h ?P ?v2 (js ''![pic](https://site.com/img/a.png)'')
                (js ''https://site.com/page'') (js ''Inbox/Page.md'') (js ''x7k'')
              = Some (js ''![pic](Inbox/x7k_a.png)'', ?v2 @ [js ''Inbox/x7k_a.png''])"
      unfolding downloadImagesInContent_def sc dr by (simp add: ap)
    have md: "modify ?h w p c = Some w" for w p c
      by (simp add: example_host_def)
    have fm1: "createYamlFrontmatter ?now1 [] (Some (js ''https://site.com/page''))
               = js ''---'' @ [newline] @ js ''modified: 2025-10-05 14:30'' @ [newline]
                 @ js ''created: 2025-10-05 14:30'' @ [newline] @ js ''tags: []'' @ [newline]
                 @ js ''sources: '' @ [dquote] @ js ''[Website](https://site.com/page)'' @ [dquote]
                 @ [newline] @ js ''---''"
      by code_simp
    have fm2: "createYamlFrontmatter ?now2 [] (Some (js ''https://site.com/page''))
               = js ''---'' @ [newline] @ js ''modified: 2025-10-05 14:31'' @ [newline]
                 @ js ''created: 2025-10-05 14:31'' @ [newline] @ js ''tags: []'' @ [newline]
                 @ js ''sources: '' @ [dquote] @ js ''[Website](https://site.com/page)'' @ [dquote]
                 @ [newline] @ js ''---''"
      by code_simp
    have ne: "js ''https://site.com/page'' \<noteq> []"
      by (simp add: js_def)
    show ?thesis
      using ne by (simp add: createNoteFromClipboard_def Let_def ef np cr dc md fm1 fm2)
  qed
  have u: "js ''https://site.com/page'' \<noteq> []"
    by (simp add: js_def)
  have f: "ensureFolderExists example_host [js ''Inbox''] (js ''Inbox'') = Some [js ''Inbox'']"
    by code_simp
  have c: "create example_host [js ''Inbox''] p c \<noteq> None" for p c
    by (simp add: example_host_def)
  have m: "modify example_host w p c \<noteq> None" for w p c
    by (simp add: example_host_def)
  have v: "valid_clock ?now1" "valid_clock ?now2"
    by (simp_all add: valid_clock_def)
  have d: "clock_minute ?now1 \<noteq> clock_minute ?now2"
    by (simp add: clock_minute_def)
  from rewrite_regenerates_timestamps [OF example_host_numbering refl u TrueI f c m,
      of "\<lambda>u. Some (uri_path (parse_uri u))" ?now1 ?now2 "js ''x7k''" "js ''Page''"
         "js ''![pic](https://site.com/img/a.png)''" "[]"] v d
  have ne: "stamp ?now2 \<noteq> stamp ?now1"
    by blast
  show ?thesis by (rule conjI [OF run ne])
qed

end
